theory Spec2Isabelle
  imports Main "HOL-Library.Monad_Syntax" "HOL-Library.Sublist"
begin

section \<open>Data model of the tokenizer\<close>

text \<open>
  The header \<^verbatim>\<open>tokenizer.h\<close> is not part of the sources at hand; the two enumerations,
  the structure \<^verbatim>\<open>tokenizer_t\<close> and the constant \<^verbatim>\<open>INITIAL_COL_SIZE\<close> it declares are
  reconstructed from their uses in \<^verbatim>\<open>tokenizer.c\<close> and from the specification.
\<close>

text \<open>Modelled from the spec: the enumeration of machine states declared in \<^verbatim>\<open>tokenizer.h\<close>.\<close>

datatype tokenizer_state =
  START_LINE | START_FIELD | START_QUOTED_FIELD | FIELD
  | QUOTED_FIELD | QUOTED_FIELD_NEWLINE | COMMENT | CARRIAGE_RETURN

text \<open>Modelled from the spec: the enumeration of error codes declared in \<^verbatim>\<open>tokenizer.h\<close>.\<close>

datatype err_code =
  NO_ERROR | INVALID_LINE | TOO_MANY_COLS | NOT_ENOUGH_COLS
  | CONVERSION_ERROR | OVERFLOW_ERROR

text \<open>Modelled from the spec: \<^verbatim>\<open>INITIAL_COL_SIZE\<close>, ``a small constant, e.g. 50 bytes''.\<close>

definition INITIAL_COL_SIZE :: int where
  "INITIAL_COL_SIZE = 50"

text \<open>
  The structure \<^verbatim>\<open>tokenizer_t\<close>. A C \<^verbatim>\<open>char\<close> is a \<^typ>\<open>char\<close> (one byte), a C \<^verbatim>\<open>int\<close>
  used as a flag is a \<^typ>\<open>bool\<close>, every other C \<^verbatim>\<open>int\<close> is an \<^typ>\<open>int\<close> (no input that
  fits in memory makes one of them overflow). The borrowed input \<^verbatim>\<open>source\<close> is the list of
  its bytes and \<^verbatim>\<open>source_len\<close> is the length of that list. A column buffer
  \<^verbatim>\<open>output_cols[i]\<close> is the list of the bytes of the allocated block; the write pointer
  \<^verbatim>\<open>col_ptrs[i]\<close> and the iteration pointer \<^verbatim>\<open>curr_pos\<close> are offsets into their block.
  After \<^verbatim>\<open>delete_data\<close> the three arrays are null, here empty lists.
\<close>

record tokenizer_t =
  source :: "char list"
  source_pos :: int
  delimiter :: char
  comment :: char
  quotechar :: char
  output_cols :: "char list list"
  col_ptrs :: "int list"
  output_len :: "int list"
  num_cols :: int
  num_rows :: int
  fill_extra_cols :: bool
  state :: tokenizer_state
  code :: err_code
  iter_col :: int
  curr_pos :: int
  strip_whitespace_lines :: bool
  strip_whitespace_fields :: bool
  use_fast_converter :: bool
  buf :: "char list"

definition source_len :: "tokenizer_t \<Rightarrow> int" where
  "source_len self = int (length (source self))"

definition create_tokenizer ::
  "char \<Rightarrow> char \<Rightarrow> char \<Rightarrow> bool \<Rightarrow> bool \<Rightarrow> bool \<Rightarrow> bool \<Rightarrow> tokenizer_t" where
  "create_tokenizer delimiter' comment' quotechar' fill_extra_cols'
       strip_whitespace_lines' strip_whitespace_fields' use_fast_converter' =
     \<lparr> source = [], source_pos = 0,
       delimiter = delimiter', comment = comment', quotechar = quotechar',
       output_cols = [], col_ptrs = [], output_len = [],
       num_cols = 0, num_rows = 0,
       fill_extra_cols = fill_extra_cols',
       state = START_LINE, code = NO_ERROR,
       iter_col = 0, curr_pos = 0,
       strip_whitespace_lines = strip_whitespace_lines',
       strip_whitespace_fields = strip_whitespace_fields',
       use_fast_converter = use_fast_converter',
       buf = replicate 2 (CHR 0x00) \<rparr>"

text \<open>Modelled from the spec: \<^verbatim>\<open>set_source(bytes, len)\<close> installs a new input and zeroes
  the cursor; it lives in the caller of \<^verbatim>\<open>tokenizer.c\<close>.\<close>

definition set_source :: "char list \<Rightarrow> tokenizer_t \<Rightarrow> tokenizer_t" where
  "set_source bytes self = self\<lparr>source := bytes, source_pos := 0\<rparr>"

definition delete_data :: "tokenizer_t \<Rightarrow> tokenizer_t" where
  "delete_data self = self\<lparr>output_cols := [], col_ptrs := [], output_len := []\<rparr>"

subsection \<open>Memory accesses\<close>

text \<open>
  An access outside an allocated block is undefined behaviour in C. Every function that
  reads or writes memory returns an \<^typ>\<open>'a option\<close>, and \<^term>\<open>None\<close> is such an access.
\<close>

definition source_at :: "tokenizer_t \<Rightarrow> int \<Rightarrow> char option" where
  "source_at self p =
     (if 0 \<le> p \<and> p < source_len self then Some (source self ! nat p) else None)"

definition valid_col :: "tokenizer_t \<Rightarrow> int \<Rightarrow> bool" where
  "valid_col self i \<longleftrightarrow>
     0 \<le> i \<and> i < int (length (output_cols self)) \<and> i < int (length (col_ptrs self))
       \<and> i < int (length (output_len self))"

definition in_block :: "char list \<Rightarrow> int \<Rightarrow> bool" where
  "in_block b p \<longleftrightarrow> 0 \<le> p \<and> p < int (length b)"

text \<open>\<^verbatim>\<open>realloc\<close> keeps the bytes up to the smaller of the two sizes; the bytes it adds
  are written by \<^verbatim>\<open>memset\<close> before anything reads them.\<close>

definition realloc :: "char list \<Rightarrow> int \<Rightarrow> char list" where
  "realloc b n = take (nat n) b @ replicate (nat n - length b) (CHR 0x00)"

definition memset :: "char list \<Rightarrow> int \<Rightarrow> char \<Rightarrow> int \<Rightarrow> char list option" where
  "memset b off v n =
     (if 0 \<le> off \<and> 0 \<le> n \<and> off + n \<le> int (length b)
      then Some (take (nat off) b @ replicate (nat n) v @ drop (nat (off + n)) b)
      else None)"

definition resize_col :: "tokenizer_t \<Rightarrow> int \<Rightarrow> tokenizer_t option" where
  "resize_col self index =
     (if valid_col self index then
        (let i = nat index;
             diff = col_ptrs self ! i;
             b = realloc (output_cols self ! i) (2 * (output_len self ! i))
         in case memset b (output_len self ! i) (CHR 0x00) (output_len self ! i) of
              None \<Rightarrow> None
            | Some b' \<Rightarrow>
                Some (self\<lparr>output_cols := (output_cols self)[i := b'],
                           output_len := (output_len self)[i := 2 * (output_len self ! i)],
                           col_ptrs := (col_ptrs self)[i := diff]\<rparr>))
      else None)"

text \<open>The macro \<^verbatim>\<open>PUSH(c)\<close>, with the local \<^verbatim>\<open>col\<close> as a parameter.\<close>

definition PUSH :: "int \<Rightarrow> char \<Rightarrow> tokenizer_t \<Rightarrow> tokenizer_t option" where
  "PUSH col c self =
     (if valid_col self col then
        (case (if col_ptrs self ! nat col \<ge> output_len self ! nat col
               then resize_col self col else Some self) of
           None \<Rightarrow> None
         | Some self1 \<Rightarrow>
             (let i = nat col; p = col_ptrs self1 ! i; b = output_cols self1 ! i
              in if in_block b p
                 then Some (self1\<lparr>output_cols := (output_cols self1)[i := b[nat p := c]],
                                  col_ptrs := (col_ptrs self1)[i := p + 1]\<rparr>)
                 else None))
      else None)"


section \<open>The state machine tokenizer\<close>

text \<open>
  The locals of \<^verbatim>\<open>tokenize\<close> that live across iterations of its loop, together with
  the tokenizer they work on. The input character \<^verbatim>\<open>c\<close> and the arguments \<^verbatim>\<open>end\<close> and
  \<^verbatim>\<open>header\<close> are parameters of the functions below.
\<close>

record tok_locals =
  self :: tokenizer_t
  col :: int
  old_state :: tokenizer_state
  parse_newline :: bool
  whitespace :: bool

text \<open>
  What a piece of the loop body does next: \<^verbatim>\<open>break\<close> out of the \<^verbatim>\<open>switch\<close> and go on
  with the loop, or leave \<^verbatim>\<open>tokenize\<close> through the macro \<^verbatim>\<open>RETURN(c)\<close>.
\<close>

datatype outcome = Continue tok_locals | Return err_code tokenizer_t

definition RETURN :: "err_code \<Rightarrow> tokenizer_t \<Rightarrow> outcome" where
  "RETURN c s = Return c (s\<lparr>code := c\<rparr>)"

definition set_state :: "tokenizer_state \<Rightarrow> tok_locals \<Rightarrow> tok_locals" where
  "set_state s L = L\<lparr>self := (self L)\<lparr>state := s\<rparr>\<rparr>"

definition BEGIN_FIELD :: "tok_locals \<Rightarrow> tok_locals" where
  "BEGIN_FIELD L = (set_state START_FIELD L)\<lparr>whitespace := True\<rparr>"

definition HANDLE_CR :: "tok_locals \<Rightarrow> tok_locals" where
  "HANDLE_CR L = set_state CARRIAGE_RETURN (L\<lparr>old_state := state (self L)\<rparr>)"

definition is_blank :: "char \<Rightarrow> bool" where
  "is_blank c \<longleftrightarrow> c = CHR '' '' \<or> c = CHR 0x09"

text \<open>
  The backward loop of \<^verbatim>\<open>END_FIELD\<close>: starting at offset \<open>p\<close> of block \<open>b\<close>, overwrite
  blanks with zero bytes while moving down; the offset it stops at is returned.
\<close>

function strip_back :: "char list \<Rightarrow> int \<Rightarrow> (char list \<times> int) option" where
  "strip_back b p =
     (if in_block b p then
        (if is_blank (b ! nat p) then strip_back (b[nat p := CHR 0x00]) (p - 1)
         else Some (b, p))
      else None)"
  by pat_completeness auto
termination
  by (relation "measure (\<lambda>(b, p). nat (p + 1))") (auto simp: in_block_def)

declare strip_back.simps [simp del]

text \<open>The parts of the macro \<^verbatim>\<open>END_FIELD()\<close>: the backtracking over trailing blanks, and the
  test whether the field is empty.\<close>

definition strip_trailing :: "int \<Rightarrow> tokenizer_t \<Rightarrow> tokenizer_t option" where
  "strip_trailing k s =
     (if strip_whitespace_fields s then
        (if valid_col s k then
           (case strip_back (output_cols s ! nat k) (col_ptrs s ! nat k - 1) of
              None \<Rightarrow> None
            | Some (b, p) \<Rightarrow>
                Some (s\<lparr>output_cols := (output_cols s)[nat k := b],
                        col_ptrs := (col_ptrs s)[nat k := p + 1]\<rparr>))
         else None)
      else Some s)"

definition field_is_empty :: "int \<Rightarrow> tokenizer_t \<Rightarrow> bool option" where
  "field_is_empty k s =
     (if valid_col s k then
        (let p = col_ptrs s ! nat k; b = output_cols s ! nat k in
         if p = 0 then Some True
         else if in_block b (p - 1) then Some (b ! nat (p - 1) = CHR 0x00)
         else None)
      else None)"

definition END_FIELD :: "bool \<Rightarrow> tok_locals \<Rightarrow> tok_locals option" where
  "END_FIELD header L =
     (case strip_trailing (col L) (self L) of
        None \<Rightarrow> None
      | Some s1 \<Rightarrow>
          (case field_is_empty (col L) s1 of
             None \<Rightarrow> None
           | Some emp \<Rightarrow>
               (case (if emp then PUSH (col L) (CHR 0x01) s1 else Some s1) of
                  None \<Rightarrow> None
                | Some s2 \<Rightarrow>
                    (case PUSH (col L) (CHR 0x00) s2 of
                       None \<Rightarrow> None
                     | Some s3 \<Rightarrow>
                         Some (L\<lparr>self := s3,
                                 col := (if \<not> header then col L + 1 else col L)\<rparr>)))))"

text \<open>The padding loop of \<^verbatim>\<open>END_LINE\<close>; it runs in data mode only, where \<^verbatim>\<open>END_FIELD\<close>
  increments \<^verbatim>\<open>col\<close>.\<close>

lemma resize_col_num_cols: "resize_col s i = Some s' \<Longrightarrow> num_cols s' = num_cols s"
  by (auto simp: resize_col_def Let_def split: if_splits option.splits)

lemma PUSH_num_cols: "PUSH k c s = Some s' \<Longrightarrow> num_cols s' = num_cols s"
  by (auto simp: PUSH_def Let_def split: if_splits option.splits dest: resize_col_num_cols)

lemma strip_trailing_num_cols: "strip_trailing k s = Some s' \<Longrightarrow> num_cols s' = num_cols s"
  by (auto simp: strip_trailing_def split: if_splits option.splits)

lemma END_FIELD_num_cols: "END_FIELD h L = Some L' \<Longrightarrow> num_cols (self L') = num_cols (self L)"
  by (auto simp: END_FIELD_def split: if_splits option.splits
      dest!: PUSH_num_cols strip_trailing_num_cols)

lemma END_FIELD_col: "END_FIELD h L = Some L' \<Longrightarrow> col L' = (if h then col L else col L + 1)"
  by (auto simp: END_FIELD_def split: if_splits option.splits)

function fill_cols :: "tok_locals \<Rightarrow> tok_locals option" where
  "fill_cols L =
     (if col L < num_cols (self L) then
        (case PUSH (col L) (CHR 0x01) (self L) of
           None \<Rightarrow> None
         | Some s1 \<Rightarrow>
             (case END_FIELD False (L\<lparr>self := s1\<rparr>) of
                None \<Rightarrow> None
              | Some L1 \<Rightarrow> fill_cols L1))
      else Some L)"
  by pat_completeness auto
termination
proof (relation "measure (\<lambda>L. nat (num_cols (self L) - col L))")
  show "wf (measure (\<lambda>L. nat (num_cols (self L) - col L)))" by simp
next
  fix L s1 L1
  assume lt: "col L < num_cols (self L)"
    and push: "PUSH (col L) (CHR 0x01) (self L) = Some s1"
    and fin: "END_FIELD False (L\<lparr>self := s1\<rparr>) = Some L1"
  have "num_cols (self L1) = num_cols (self L)"
    using END_FIELD_num_cols [OF fin] PUSH_num_cols [OF push] by simp
  moreover have "col L1 = col L + 1"
    using END_FIELD_col [OF fin] by simp
  ultimately show "(L1, L) \<in> measure (\<lambda>L. nat (num_cols (self L) - col L))"
    using lt by simp
qed

declare fill_cols.simps [simp del]

text \<open>
  The macro \<^verbatim>\<open>END_LINE()\<close>. When it does not return, control goes on after the macro.
\<close>

definition END_LINE :: "int \<Rightarrow> bool \<Rightarrow> tok_locals \<Rightarrow> outcome option" where
  "END_LINE endr header L =
     (if header then
        Some (RETURN NO_ERROR ((self L)\<lparr>source_pos := source_pos (self L) + 1\<rparr>))
      else
        (case (if fill_extra_cols (self L) then map_option Continue (fill_cols L)
               else if col L < num_cols (self L)
               then Some (RETURN NOT_ENOUGH_COLS (self L))
               else Some (Continue L)) of
           None \<Rightarrow> None
         | Some (Return c s) \<Rightarrow> Some (Return c s)
         | Some (Continue L1) \<Rightarrow>
             (let L2 = L1\<lparr>self := (self L1)\<lparr>num_rows := num_rows (self L1) + 1\<rparr>,
                         old_state := START_LINE\<rparr>
              in if endr \<noteq> - 1 \<and> num_rows (self L2) = endr
                 then Some (RETURN NO_ERROR
                              ((self L2)\<lparr>source_pos := source_pos (self L2) + 1\<rparr>))
                 else Some (Continue L2))))"

text \<open>Sequencing: run \<open>f\<close> on the locals when the first part did not return.\<close>

definition and_then :: "outcome option \<Rightarrow> (tok_locals \<Rightarrow> outcome option) \<Rightarrow> outcome option" where
  "and_then r f =
     (case r of None \<Rightarrow> None | Some (Return c s) \<Rightarrow> Some (Return c s) | Some (Continue L) \<Rightarrow> f L)"


text \<open>The end of the two newline cases: \<^verbatim>\<open>END_LINE(); self->state = START_LINE; break;\<close>\<close>

definition finish_line :: "int \<Rightarrow> bool \<Rightarrow> tok_locals \<Rightarrow> outcome option" where
  "finish_line endr header L =
     and_then (END_LINE endr header L) (\<lambda>L2. Some (Continue (set_state START_LINE L2)))"

subsection \<open>Backtracking over unstripped whitespace\<close>

abbreviation (input) LF :: char where "LF \<equiv> CHR 0x0A"
abbreviation (input) CR :: char where "CR \<equiv> CHR 0x0D"

text \<open>The backward scan of the \<^verbatim>\<open>START_FIELD\<close> newline case, on \<^verbatim>\<open>self->source_pos\<close>.\<close>

function back_scan :: "tokenizer_t \<Rightarrow> tokenizer_t option" where
  "back_scan s =
     (if source_pos s \<ge> 0 then
        (case source_at s (source_pos s) of
           None \<Rightarrow> None
         | Some ch \<Rightarrow>
             if ch \<noteq> delimiter s \<and> ch \<noteq> LF \<and> ch \<noteq> CR
             then back_scan (s\<lparr>source_pos := source_pos s - 1\<rparr>)
             else Some s)
      else Some s)"
  by pat_completeness auto
termination
  by (relation "measure (\<lambda>s. nat (source_pos s + 1))") auto

declare back_scan.simps [simp del]

lemma resize_col_source_pos: "resize_col s i = Some s' \<Longrightarrow> source_pos s' = source_pos s"
  by (auto simp: resize_col_def Let_def split: if_splits option.splits)

lemma PUSH_source_pos: "PUSH k c s = Some s' \<Longrightarrow> source_pos s' = source_pos s"
  by (auto simp: PUSH_def Let_def split: if_splits option.splits dest: resize_col_source_pos)

text \<open>The forward loop that appends the whitespace between the cursor and \<open>tmp\<close>.\<close>

function push_upto :: "int \<Rightarrow> int \<Rightarrow> tokenizer_t \<Rightarrow> tokenizer_t option" where
  "push_upto tmp k s =
     (if source_pos s < tmp then
        (case source_at s (source_pos s) of
           None \<Rightarrow> None
         | Some ch \<Rightarrow>
             (case PUSH k ch s of
                None \<Rightarrow> None
              | Some s1 \<Rightarrow> push_upto tmp k (s1\<lparr>source_pos := source_pos s1 + 1\<rparr>)))
      else Some s)"
  by pat_completeness auto
termination
  by (relation "measure (\<lambda>(tmp, k, s). nat (tmp - source_pos s))")
     (auto dest: PUSH_source_pos)

declare push_upto.simps [simp del]

definition backtrack :: "bool \<Rightarrow> tok_locals \<Rightarrow> tok_locals option" where
  "backtrack header L =
     (let tmp = source_pos (self L) in
      case back_scan ((self L)\<lparr>source_pos := tmp - 1\<rparr>) of
        None \<Rightarrow> None
      | Some s1 \<Rightarrow>
          if source_pos s1 = - 1 then Some (L\<lparr>self := s1\<lparr>source_pos := tmp\<rparr>\<rparr>)
          else
            (case source_at s1 (source_pos s1) of
               None \<Rightarrow> None
             | Some ch \<Rightarrow>
                 if ch = LF \<or> ch = CR then Some (L\<lparr>self := s1\<lparr>source_pos := tmp\<rparr>\<rparr>)
                 else
                   (let s2 = s1\<lparr>source_pos := source_pos s1 + 1\<rparr> in
                    case (if source_pos s2 = tmp then Some s2
                          else push_upto tmp (col L) s2) of
                      None \<Rightarrow> None
                    | Some s3 \<Rightarrow> END_FIELD header (L\<lparr>self := s3\<rparr>))))"

subsection \<open>The cases of the switch\<close>

text \<open>
  Each \<^verbatim>\<open>case\<close> label is a function of the input character and the locals; a case that
  falls through calls the function of the next label. \<^term>\<open>Continue\<close> is \<^verbatim>\<open>break\<close>.
\<close>

definition case_FIELD :: "int \<Rightarrow> bool \<Rightarrow> char \<Rightarrow> tok_locals \<Rightarrow> outcome option" where
  "case_FIELD endr header c L =
     (if comment (self L) \<noteq> CHR 0x00 \<and> c = comment (self L) \<and> whitespace L \<and> col L = 0
      then Some (Continue (set_state COMMENT L))
      else if c = delimiter (self L) then
        (case END_FIELD header L of
           None \<Rightarrow> None
         | Some L1 \<Rightarrow> Some (Continue (BEGIN_FIELD L1)))
      else if c = CR then Some (Continue (HANDLE_CR L))
      else if c = LF then
        (case END_FIELD header L of
           None \<Rightarrow> None
         | Some L1 \<Rightarrow> finish_line endr header L1)
      else
        (case PUSH (col L) c (self L) of
           None \<Rightarrow> None
         | Some s1 \<Rightarrow>
             Some (Continue (L\<lparr>self := s1,
                               whitespace := (if \<not> is_blank c then False else whitespace L)\<rparr>))))"

definition case_START_FIELD :: "int \<Rightarrow> bool \<Rightarrow> char \<Rightarrow> tok_locals \<Rightarrow> outcome option" where
  "case_START_FIELD endr header c L =
     (if is_blank c \<and> strip_whitespace_fields (self L) then Some (Continue L)
      else if \<not> strip_whitespace_lines (self L) \<and> comment (self L) \<noteq> CHR 0x00
              \<and> c = comment (self L)
      then Some (Continue (set_state COMMENT L))
      else if c = delimiter (self L) then
        (case END_FIELD header L of
           None \<Rightarrow> None
         | Some L1 \<Rightarrow> Some (Continue (BEGIN_FIELD L1)))
      else if c = CR then Some (Continue (HANDLE_CR L))
      else if c = LF then
        (case (if strip_whitespace_lines (self L) then
                 (if is_blank (delimiter (self L)) then Some L else END_FIELD header L)
               else backtrack header L) of
           None \<Rightarrow> None
         | Some L1 \<Rightarrow> finish_line endr header L1)
      else if c = quotechar (self L) then Some (Continue (set_state START_QUOTED_FIELD L))
      else if col L \<ge> num_cols (self L) then Some (RETURN TOO_MANY_COLS (self L))
      else case_FIELD endr header c (set_state FIELD L))"

definition case_START_LINE :: "int \<Rightarrow> bool \<Rightarrow> char \<Rightarrow> tok_locals \<Rightarrow> outcome option" where
  "case_START_LINE endr header c L =
     (if c = LF then Some (Continue L)
      else if c = CR then Some (Continue (HANDLE_CR L))
      else if is_blank c \<and> strip_whitespace_lines (self L) then Some (Continue L)
      else if comment (self L) \<noteq> CHR 0x00 \<and> c = comment (self L)
      then Some (Continue (set_state COMMENT L))
      else case_START_FIELD endr header c (BEGIN_FIELD (L\<lparr>col := 0\<rparr>)))"

definition case_QUOTED_FIELD :: "char \<Rightarrow> tok_locals \<Rightarrow> outcome option" where
  "case_QUOTED_FIELD c L =
     (if c = quotechar (self L) then Some (Continue (set_state FIELD L))
      else if c = LF then Some (Continue (set_state QUOTED_FIELD_NEWLINE L))
      else if c = CR then Some (Continue (HANDLE_CR L))
      else
        (case PUSH (col L) c (self L) of
           None \<Rightarrow> None
         | Some s1 \<Rightarrow> Some (Continue (L\<lparr>self := s1\<rparr>))))"

definition case_QUOTED_FIELD_NEWLINE :: "char \<Rightarrow> tok_locals \<Rightarrow> outcome option" where
  "case_QUOTED_FIELD_NEWLINE c L =
     (if state (self L) = QUOTED_FIELD then case_QUOTED_FIELD c L
      else if (is_blank c \<and> strip_whitespace_lines (self L)) \<or> c = LF
      then Some (Continue L)
      else if c = CR then Some (Continue (HANDLE_CR L))
      else if c = quotechar (self L) then Some (Continue (set_state FIELD L))
      else case_QUOTED_FIELD c (set_state QUOTED_FIELD L))"

definition case_START_QUOTED_FIELD :: "bool \<Rightarrow> char \<Rightarrow> tok_locals \<Rightarrow> outcome option" where
  "case_START_QUOTED_FIELD header c L =
     (if is_blank c \<and> strip_whitespace_fields (self L) then Some (Continue L)
      else if c = quotechar (self L) then map_option Continue (END_FIELD header L)
      else case_QUOTED_FIELD_NEWLINE c (set_state QUOTED_FIELD L))"

definition case_COMMENT :: "char \<Rightarrow> tok_locals \<Rightarrow> outcome option" where
  "case_COMMENT c L =
     (if c = LF then Some (Continue (set_state START_LINE L))
      else if c = CR then Some (Continue (HANDLE_CR L))
      else Some (Continue L))"

definition case_CARRIAGE_RETURN :: "char \<Rightarrow> tok_locals \<Rightarrow> outcome option" where
  "case_CARRIAGE_RETURN c L =
     (let L1 = set_state (old_state L) L;
          L2 = L1\<lparr>self := (self L1)\<lparr>source_pos := source_pos (self L1) - 1\<rparr>\<rparr>
      in if c \<noteq> LF
         then Some (Continue (L2\<lparr>self := (self L2)\<lparr>source_pos := source_pos (self L2) - 1\<rparr>,
                                 parse_newline := True\<rparr>))
         else Some (Continue L2))"

subsection \<open>The loop and \<^verbatim>\<open>tokenize\<close>\<close>

definition tok_char :: "tok_locals \<Rightarrow> char option" where
  "tok_char L =
     (if source_pos (self L) = source_len (self L) \<or> parse_newline L then Some LF
      else source_at (self L) (source_pos (self L)))"

definition tok_switch :: "int \<Rightarrow> bool \<Rightarrow> char \<Rightarrow> tok_locals \<Rightarrow> outcome option" where
  "tok_switch endr header c L =
     (case state (self L) of
        START_LINE \<Rightarrow> case_START_LINE endr header c L
      | START_FIELD \<Rightarrow> case_START_FIELD endr header c L
      | FIELD \<Rightarrow> case_FIELD endr header c L
      | START_QUOTED_FIELD \<Rightarrow> case_START_QUOTED_FIELD header c L
      | QUOTED_FIELD_NEWLINE \<Rightarrow> case_QUOTED_FIELD_NEWLINE c L
      | QUOTED_FIELD \<Rightarrow> case_QUOTED_FIELD c L
      | COMMENT \<Rightarrow> case_COMMENT c L
      | CARRIAGE_RETURN \<Rightarrow> case_CARRIAGE_RETURN c L)"

text \<open>One iteration of the \<^verbatim>\<open>while\<close> loop.\<close>

definition tok_body :: "int \<Rightarrow> bool \<Rightarrow> tok_locals \<Rightarrow> outcome option" where
  "tok_body endr header L =
     (case tok_char L of
        None \<Rightarrow> None
      | Some c \<Rightarrow>
          and_then (tok_switch endr header c (L\<lparr>parse_newline := False\<rparr>))
            (\<lambda>L1. Some (Continue
               (L1\<lparr>self := (self L1)\<lparr>source_pos := source_pos (self L1) + 1\<rparr>\<rparr>))))"

text \<open>
  What a call of \<^verbatim>\<open>tokenize\<close> ends in: an access outside an allocated block, or a return
  with the returned code and the tokenizer as the call leaves it. A loop that runs forever
  is the value \<^term>\<open>None\<close> of the functions below.
\<close>

datatype tok_result = Undefined_behaviour | Returned err_code tokenizer_t

partial_function (option) tok_loop :: "int \<Rightarrow> bool \<Rightarrow> tok_locals \<Rightarrow> tok_result option" where
  "tok_loop endr header L =
     (if source_pos (self L) < source_len (self L) + 1 then
        (case tok_body endr header L of
           None \<Rightarrow> Some Undefined_behaviour
         | Some (Return c s) \<Rightarrow> Some (Returned c s)
         | Some (Continue L1) \<Rightarrow> tok_loop endr header L1)
      else Some (Returned NO_ERROR ((self L)\<lparr>code := NO_ERROR\<rparr>)))"

declare tok_loop.simps [code]

definition tok_alloc :: "bool \<Rightarrow> int \<Rightarrow> tokenizer_t \<Rightarrow> tokenizer_t" where
  "tok_alloc header num_cols' s =
     (let s1 = (delete_data s)\<lparr>num_rows := 0\<rparr>;
          s2 = s1\<lparr>num_cols := (if header then 1 else num_cols')\<rparr>;
          n = nat (num_cols s2)
      in s2\<lparr>output_cols := replicate n (replicate (nat INITIAL_COL_SIZE) (CHR 0x00)),
             col_ptrs := replicate n 0,
             output_len := replicate n INITIAL_COL_SIZE\<rparr>)"

definition tokenize :: "int \<Rightarrow> bool \<Rightarrow> int \<Rightarrow> tokenizer_t \<Rightarrow> tok_result option" where
  "tokenize endr header num_cols' s =
     (let s1 = tok_alloc header num_cols' s in
      if endr = 0 then Some (Returned NO_ERROR (s1\<lparr>code := NO_ERROR\<rparr>))
      else tok_loop endr header
             \<lparr>self = s1\<lparr>state := START_LINE\<rparr>, col = 0, old_state = START_LINE,
              parse_newline = False, whitespace = True\<rparr>)"

text \<open>The bytes of column \<open>i\<close> below its write pointer: the packed fields.\<close>

definition packed :: "tokenizer_t \<Rightarrow> nat \<Rightarrow> char list" where
  "packed s i = take (nat (col_ptrs s ! i)) (output_cols s ! i)"


section \<open>The line skipper\<close>

text \<open>
  The loop of \<^verbatim>\<open>skip_lines\<close>, with its locals \<^verbatim>\<open>signif_chars\<close>, \<^verbatim>\<open>comment\<close> and \<^verbatim>\<open>i\<close> as
  arguments. The cursor moves forward in every iteration, so the loop ends.
\<close>

function skip_loop ::
  "int \<Rightarrow> bool \<Rightarrow> int \<Rightarrow> bool \<Rightarrow> int \<Rightarrow> tokenizer_t \<Rightarrow> tok_result" where
  "skip_loop offset header signif_chars comm i s =
     (if i < offset then
        (if source_pos s \<ge> source_len s then
           (if header then Returned INVALID_LINE (s\<lparr>code := INVALID_LINE\<rparr>)
            else Returned NO_ERROR (s\<lparr>code := NO_ERROR\<rparr>))
         else
           (case source_at s (source_pos s) of
              None \<Rightarrow> Undefined_behaviour
            | Some c \<Rightarrow>
                if c = CR \<or> c = LF then
                  (let s1 = (if c = CR \<and> source_pos s < source_len s - 1
                                \<and> source_at s (source_pos s + 1) = Some LF
                             then s\<lparr>source_pos := source_pos s + 1\<rparr> else s);
                       i1 = (if \<not> comm \<and> signif_chars > 0 then i + 1 else i)
                   in skip_loop offset header 0 False i1
                        (s1\<lparr>source_pos := source_pos s1 + 1\<rparr>))
                else if \<not> is_blank c \<or> \<not> strip_whitespace_lines s \<or> header then
                  (let comm1 = (if signif_chars = 0 \<and> comment s \<noteq> CHR 0x00 \<and> c = comment s
                                then True else comm)
                   in skip_loop offset header (signif_chars + 1) comm1 i
                        (s\<lparr>source_pos := source_pos s + 1\<rparr>))
                else skip_loop offset header signif_chars comm i
                       (s\<lparr>source_pos := source_pos s + 1\<rparr>)))
      else Returned NO_ERROR (s\<lparr>code := NO_ERROR\<rparr>))"
  by pat_completeness auto
termination
  by (relation "measure (\<lambda>(offset, header, signif_chars, comm, i, s).
                   nat (source_len s - source_pos s))")
     (auto simp: source_len_def)

declare skip_loop.simps [simp del]

definition skip_lines :: "int \<Rightarrow> bool \<Rightarrow> tokenizer_t \<Rightarrow> tok_result" where
  "skip_lines offset header s = skip_loop offset header 0 False 0 s"

section \<open>The field iterator\<close>

text \<open>
  What \<^verbatim>\<open>next_field\<close> returns is a pointer either to the tokenizer's own two-byte block
  \<^verbatim>\<open>buf\<close> or into a column block, at an offset.
\<close>

datatype field_ptr = Empty_buf | In_col int int

definition start_iteration :: "int \<Rightarrow> tokenizer_t \<Rightarrow> tokenizer_t" where
  "start_iteration k s = s\<lparr>iter_col := k, curr_pos := 0\<rparr>"

definition valid_iter :: "tokenizer_t \<Rightarrow> bool" where
  "valid_iter s \<longleftrightarrow> 0 \<le> iter_col s \<and> iter_col s < int (length (output_cols s))"

text \<open>The scan of \<^verbatim>\<open>next_field\<close> to the next zero byte, from offset \<open>p\<close> of block \<open>b\<close>.\<close>

function scan_field :: "char list \<Rightarrow> int \<Rightarrow> int option" where
  "scan_field b p =
     (if in_block b p then
        (if b ! nat p \<noteq> CHR 0x00 then scan_field b (p + 1) else Some p)
      else None)"
  by pat_completeness auto
termination
  by (relation "measure (\<lambda>(b, p). nat (int (length b) - p))") (auto simp: in_block_def)

declare scan_field.simps [simp del]

text \<open>\<^verbatim>\<open>next_field\<close> returns the pointer and the size, and moves \<^verbatim>\<open>curr_pos\<close>.\<close>

definition next_field :: "tokenizer_t \<Rightarrow> ((field_ptr \<times> int) \<times> tokenizer_t) option" where
  "next_field s =
     (if valid_iter s then
        (let b = output_cols s ! nat (iter_col s); tmp = curr_pos s in
         case scan_field b tmp of
           None \<Rightarrow> None
         | Some p \<Rightarrow>
             (let s1 = s\<lparr>curr_pos := p + 1\<rparr> in
              if b ! nat tmp = CHR 0x01 then Some ((Empty_buf, 0), s1)
              else Some ((In_col (iter_col s) tmp, curr_pos s1 - tmp - 1), s1)))
      else None)"

definition finished_iteration :: "tokenizer_t \<Rightarrow> bool option" where
  "finished_iteration s =
     (if valid_iter s \<and> nat (iter_col s) < length (output_len s) then
        (if curr_pos s \<ge> output_len s ! nat (iter_col s) then Some True
         else if in_block (output_cols s ! nat (iter_col s)) (curr_pos s)
         then Some (output_cols s ! nat (iter_col s) ! nat (curr_pos s) = CHR 0x00)
         else None)
      else None)"

text \<open>The bytes a returned pointer points to, up to the end of its block.\<close>

definition bytes_at :: "tokenizer_t \<Rightarrow> field_ptr \<Rightarrow> char list" where
  "bytes_at s p =
     (case p of Empty_buf \<Rightarrow> buf s
      | In_col k off \<Rightarrow> drop (nat off) (output_cols s ! nat k))"

definition begins_with :: "char \<Rightarrow> char list \<Rightarrow> bool" where
  "begins_with c bs \<longleftrightarrow> (case bs of [] \<Rightarrow> False | x # _ \<Rightarrow> x = c)"


section \<open>What the macros and the cases leave alone\<close>

text \<open>
  The macros write to the three buffer arrays only; \<^term>\<open>delete_data\<close> forgets exactly
  these, so two tokenizers with the same image under it differ in the buffers at most.
\<close>

lemma delete_data_upd [simp]:
  "delete_data (s\<lparr>output_cols := oc\<rparr>) = delete_data s"
  "delete_data (s\<lparr>col_ptrs := cp\<rparr>) = delete_data s"
  "delete_data (s\<lparr>output_len := ol\<rparr>) = delete_data s"
  by (simp_all add: delete_data_def)

lemma buffers_shape:
  assumes "delete_data s' = delete_data s"
  shows "\<exists>oc cp ol. s' = s\<lparr>output_cols := oc, col_ptrs := cp, output_len := ol\<rparr>"
proof -
  have "s' = (delete_data s')\<lparr>output_cols := output_cols s', col_ptrs := col_ptrs s',
              output_len := output_len s'\<rparr>"
    by (simp add: delete_data_def)
  also have "\<dots> = s\<lparr>output_cols := output_cols s', col_ptrs := col_ptrs s',
              output_len := output_len s'\<rparr>"
    unfolding assms by (simp add: delete_data_def)
  finally show ?thesis by blast
qed

lemma resize_col_frame: "resize_col s i = Some s' \<Longrightarrow> delete_data s' = delete_data s"
  by (auto simp: resize_col_def Let_def split: if_splits option.splits)

lemma PUSH_frame: "PUSH k c s = Some s' \<Longrightarrow> delete_data s' = delete_data s"
  by (auto simp: PUSH_def Let_def split: if_splits option.splits dest!: resize_col_frame)

lemmas PUSH_shape = PUSH_frame [THEN buffers_shape]

definition locals_frame :: "tok_locals \<Rightarrow> tok_locals" where
  "locals_frame L = L\<lparr>self := delete_data (self L), col := 0\<rparr>"

lemma locals_frame_upd [simp]:
  "locals_frame (L\<lparr>col := k\<rparr>) = locals_frame L"
  "delete_data s' = delete_data (self L) \<Longrightarrow> locals_frame (L\<lparr>self := s'\<rparr>) = locals_frame L"
  by (simp_all add: locals_frame_def)

lemma locals_shape:
  assumes "locals_frame L' = locals_frame L"
  shows "\<exists>oc cp ol k. L' = L\<lparr>self := (self L)\<lparr>output_cols := oc, col_ptrs := cp, output_len := ol\<rparr>, col := k\<rparr>"
proof -
  have d: "delete_data (self L') = delete_data (self L)"
    using arg_cong [OF assms, of self] by (simp add: locals_frame_def)
  obtain oc cp ol where s: "self L' = (self L)\<lparr>output_cols := oc, col_ptrs := cp, output_len := ol\<rparr>"
    using buffers_shape [OF d] by blast
  have "L' = (locals_frame L')\<lparr>self := self L', col := col L'\<rparr>"
    by (simp add: locals_frame_def)
  also have "\<dots> = L\<lparr>self := self L', col := col L'\<rparr>"
    unfolding assms by (simp add: locals_frame_def)
  finally have "L' = L\<lparr>self := (self L)\<lparr>output_cols := oc, col_ptrs := cp, output_len := ol\<rparr>,
                       col := col L'\<rparr>"
    using s by simp
  then show ?thesis by blast
qed

lemma strip_trailing_frame: "strip_trailing k s = Some s' \<Longrightarrow> delete_data s' = delete_data s"
  by (auto simp: strip_trailing_def split: if_splits option.splits)

lemma END_FIELD_frame:
  "END_FIELD h L = Some L' \<Longrightarrow> locals_frame L' = locals_frame L"
  by (auto simp: END_FIELD_def split: if_splits option.splits
      dest!: PUSH_frame strip_trailing_frame)

lemma END_FIELD_shape:
  assumes "END_FIELD h L = Some L'"
  shows "\<exists>oc cp ol. L' = L\<lparr>self := (self L)\<lparr>output_cols := oc, col_ptrs := cp, output_len := ol\<rparr>,
                        col := (if h then col L else col L + 1)\<rparr>"
proof -
  obtain oc cp ol k where
    L': "L' = L\<lparr>self := (self L)\<lparr>output_cols := oc, col_ptrs := cp, output_len := ol\<rparr>, col := k\<rparr>"
    using locals_shape [OF END_FIELD_frame [OF assms]] by blast
  then have "k = (if h then col L else col L + 1)"
    using END_FIELD_col [OF assms] by simp
  then show ?thesis using L' by blast
qed

lemma fill_cols_frame: "fill_cols L = Some L' \<Longrightarrow> locals_frame L' = locals_frame L"
proof (induction L rule: fill_cols.induct)
  case (1 L)
  show ?case
  proof (cases "col L < num_cols (self L)")
    case False
    then show ?thesis using "1.prems" by (simp add: fill_cols.simps)
  next
    case True
    then obtain s1 L1 where p: "PUSH (col L) (CHR 0x01) (self L) = Some s1"
      and e: "END_FIELD False (L\<lparr>self := s1\<rparr>) = Some L1" and f: "fill_cols L1 = Some L'"
      using "1.prems" by (subst (asm) fill_cols.simps) (auto split: option.splits)
    from "1.IH" [OF True p e f] PUSH_frame [OF p] END_FIELD_frame [OF e]
    show ?thesis by simp 
  qed
qed



lemma source_pos_same: "source_pos s = p \<Longrightarrow> s\<lparr>source_pos := p\<rparr> = s"
  by auto

lemma back_scan_frame:
  "back_scan s = Some s' \<Longrightarrow> s'\<lparr>source_pos := p\<rparr> = s\<lparr>source_pos := p\<rparr> \<and> source_pos s' \<le> source_pos s"
proof (induction s rule: back_scan.induct)
  case (1 s)
  show ?case
  proof (cases "source_pos s \<ge> 0 \<and> (\<exists>ch. source_at s (source_pos s) = Some ch \<and> ch \<noteq> delimiter s \<and> ch \<noteq> LF \<and> ch \<noteq> CR)")
    case True
    then obtain ch where c: "source_pos s \<ge> 0" "source_at s (source_pos s) = Some ch" "ch \<noteq> delimiter s \<and> ch \<noteq> LF \<and> ch \<noteq> CR"
      by blast
    then have "back_scan (s\<lparr>source_pos := source_pos s - 1\<rparr>) = Some s'"
      using "1.prems" by (subst (asm) back_scan.simps) simp
    from "1.IH" [OF c(1) c(2) c(3) this] show ?thesis by simp
  next
    case False
    then have "s' = s" using "1.prems"
      by (subst (asm) back_scan.simps) (auto split: if_splits option.splits)
    then show ?thesis by simp
  qed
qed

lemma push_upto_frame:
  "push_upto tmp k s = Some s' \<Longrightarrow> source_pos s \<le> tmp \<Longrightarrow>
     delete_data s' = delete_data (s\<lparr>source_pos := tmp\<rparr>)"
proof (induction tmp k s rule: push_upto.induct)
  case (1 tmp k s)
  show ?case
  proof (cases "source_pos s < tmp")
    case False
    then have "s' = s" "source_pos s = tmp" using "1.prems" by (simp_all add: push_upto.simps)
    then show ?thesis by (simp add: source_pos_same)
  next
    case True
    then obtain ch s1 where a: "source_at s (source_pos s) = Some ch" and p: "PUSH k ch s = Some s1"
      and r: "push_upto tmp k (s1\<lparr>source_pos := source_pos s1 + 1\<rparr>) = Some s'"
      using "1.prems" by (subst (asm) push_upto.simps) (auto split: option.splits)
    have "source_pos (s1\<lparr>source_pos := source_pos s1 + 1\<rparr>) \<le> tmp"
      using True PUSH_source_pos [OF p] by simp
    from "1.IH" [OF True a p r this] PUSH_shape [OF p]
    show ?thesis by (auto simp: delete_data_def)
  qed
qed

lemma backtrack_frame:
  assumes "backtrack h L = Some L'"
  shows "locals_frame L' = locals_frame L"
proof -
  let ?tmp = "source_pos (self L)"
  from assms obtain s1 where bs: "back_scan ((self L)\<lparr>source_pos := ?tmp - 1\<rparr>) = Some s1"
    by (auto simp: backtrack_def Let_def split: option.splits)
  from back_scan_frame [OF bs, of ?tmp]
  have s1: "s1\<lparr>source_pos := ?tmp\<rparr> = self L" and le: "source_pos s1 \<le> ?tmp - 1" by simp_all
  show ?thesis
  proof (cases "source_pos s1 = - 1 \<or> source_at s1 (source_pos s1) = Some LF \<or> source_at s1 (source_pos s1) = Some CR")
    case True
    then have "L' = L\<lparr>self := s1\<lparr>source_pos := ?tmp\<rparr>\<rparr>"
      using assms bs by (auto simp: backtrack_def Let_def split: option.splits if_splits)
    then show ?thesis using s1 by simp
  next
    case False
    let ?s2 = "s1\<lparr>source_pos := source_pos s1 + 1\<rparr>"
    from False assms bs obtain s3 where
      s3: "(if source_pos ?s2 = ?tmp then Some ?s2 else push_upto ?tmp (col L) ?s2) = Some s3"
      and ef: "END_FIELD h (L\<lparr>self := s3\<rparr>) = Some L'"
      by (auto simp: backtrack_def Let_def split: option.splits if_splits)
    have "delete_data s3 = delete_data (?s2\<lparr>source_pos := ?tmp\<rparr>)"
    proof (cases "source_pos ?s2 = ?tmp")
      case True
      then have "s3 = ?s2" using s3 by simp
      then show ?thesis using True by (simp add: source_pos_same)
    next
      case False
      then have "push_upto ?tmp (col L) ?s2 = Some s3" using s3 by simp
      from push_upto_frame [OF this] le show ?thesis by simp
    qed
    then have "delete_data s3 = delete_data (self L)" using s1 by simp
    then show ?thesis using END_FIELD_frame [OF ef] by simp
  qed
qed



definition padded :: "tok_locals \<Rightarrow> tok_locals \<Rightarrow> bool" where
  "padded L L1 \<longleftrightarrow>
     (if fill_extra_cols (self L) then fill_cols L = Some L1
      else \<not> col L < num_cols (self L) \<and> L1 = L)"

definition next_row :: "tok_locals \<Rightarrow> tok_locals" where
  "next_row L1 = L1\<lparr>self := (self L1)\<lparr>num_rows := num_rows (self L1) + 1\<rparr>, old_state := START_LINE\<rparr>"

lemma finish_line_cases [consumes 1, case_names header short limit row]:
  assumes "finish_line e h L = Some r"
  obtains
    (header) "h" "r = RETURN NO_ERROR ((self L)\<lparr>source_pos := source_pos (self L) + 1\<rparr>)"
  | (short) "\<not> h" "\<not> fill_extra_cols (self L)" "col L < num_cols (self L)"
      "r = RETURN NOT_ENOUGH_COLS (self L)"
  | (limit) L1 where "\<not> h" "padded L L1" "e \<noteq> - 1" "num_rows (self L1) + 1 = e"
      "r = RETURN NO_ERROR ((self (next_row L1))\<lparr>source_pos := source_pos (self L1) + 1\<rparr>)"
  | (row) L1 where "\<not> h" "padded L L1" "\<not> (e \<noteq> - 1 \<and> num_rows (self L1) + 1 = e)"
      "r = Continue (set_state START_LINE (next_row L1))"
  using assms
  by (auto simp: finish_line_def END_LINE_def and_then_def padded_def next_row_def Let_def
      RETURN_def
      split: if_splits option.splits outcome.splits)

lemma case_FIELD_cases [consumes 1, case_names comment delim cr lf push]:
  assumes "case_FIELD e h c L = Some r"
  obtains
    (comment) "comment (self L) \<noteq> CHR 0x00" "c = comment (self L)" "whitespace L" "col L = 0"
      "r = Continue (set_state COMMENT L)"
  | (delim) L1 where "c = delimiter (self L)" "END_FIELD h L = Some L1"
      "r = Continue (BEGIN_FIELD L1)"
  | (cr) "c = CR" "r = Continue (HANDLE_CR L)"
  | (lf) L1 where "c = LF" "END_FIELD h L = Some L1"
      "finish_line e h L1 = Some r"
  | (push) s1 where "c \<noteq> LF" "c \<noteq> CR" "PUSH (col L) c (self L) = Some s1"
      "r = Continue (L\<lparr>self := s1, whitespace := (if \<not> is_blank c then False else whitespace L)\<rparr>)"
  using assms by (auto simp: case_FIELD_def split: if_splits option.splits)

lemma case_START_FIELD_cases
  [consumes 1, case_names blank comment delim cr lf quote too_many field]:
  assumes "case_START_FIELD e h c L = Some r"
  obtains
    (blank) "is_blank c" "strip_whitespace_fields (self L)" "r = Continue L"
  | (comment) "\<not> strip_whitespace_lines (self L)" "comment (self L) \<noteq> CHR 0x00"
      "c = comment (self L)" "r = Continue (set_state COMMENT L)"
  | (delim) L1 where "c = delimiter (self L)" "END_FIELD h L = Some L1"
      "r = Continue (BEGIN_FIELD L1)"
  | (cr) "c = CR" "r = Continue (HANDLE_CR L)"
  | (lf) L1 where "c = LF"
      "(if strip_whitespace_lines (self L) then
          (if is_blank (delimiter (self L)) then Some L else END_FIELD h L)
        else backtrack h L) = Some L1"
      "finish_line e h L1 = Some r"
  | (quote) "c \<noteq> LF" "c \<noteq> CR" "c = quotechar (self L)"
      "r = Continue (set_state START_QUOTED_FIELD L)"
  | (too_many) "col L \<ge> num_cols (self L)" "r = RETURN TOO_MANY_COLS (self L)"
  | (field) "c \<noteq> LF" "c \<noteq> CR" "c \<noteq> delimiter (self L)" "col L < num_cols (self L)"
      "\<not> (is_blank c \<and> strip_whitespace_fields (self L))"
      "case_FIELD e h c (set_state FIELD L) = Some r"
  using assms by (auto simp: case_START_FIELD_def split: if_splits option.splits)

lemma case_START_LINE_cases [consumes 1, case_names lf cr blank comment field]:
  assumes "case_START_LINE e h c L = Some r"
  obtains
    (lf) "c = LF" "r = Continue L"
  | (cr) "c = CR" "r = Continue (HANDLE_CR L)"
  | (blank) "is_blank c" "strip_whitespace_lines (self L)" "r = Continue L"
  | (comment) "comment (self L) \<noteq> CHR 0x00" "c = comment (self L)"
      "r = Continue (set_state COMMENT L)"
  | (field) "c \<noteq> LF" "c \<noteq> CR" "case_START_FIELD e h c (BEGIN_FIELD (L\<lparr>col := 0\<rparr>)) = Some r"
  using assms unfolding case_START_LINE_def by (fastforce split: if_splits)

lemma case_QUOTED_FIELD_cases [consumes 1, case_names quote lf cr push]:
  assumes "case_QUOTED_FIELD c L = Some r"
  obtains
    (quote) "c = quotechar (self L)" "r = Continue (set_state FIELD L)"
  | (lf) "c = LF" "r = Continue (set_state QUOTED_FIELD_NEWLINE L)"
  | (cr) "c = CR" "r = Continue (HANDLE_CR L)"
  | (push) s1 where "c \<noteq> LF" "c \<noteq> CR" "PUSH (col L) c (self L) = Some s1"
      "r = Continue (L\<lparr>self := s1\<rparr>)"
  using assms by (auto simp: case_QUOTED_FIELD_def split: if_splits option.splits)

lemma case_QUOTED_FIELD_NEWLINE_cases [consumes 1, case_names through skip cr quote data]:
  assumes "case_QUOTED_FIELD_NEWLINE c L = Some r"
  obtains
    (through) "state (self L) = QUOTED_FIELD" "case_QUOTED_FIELD c L = Some r"
  | (skip) "state (self L) \<noteq> QUOTED_FIELD" "r = Continue L"
  | (cr) "state (self L) \<noteq> QUOTED_FIELD" "c = CR" "r = Continue (HANDLE_CR L)"
  | (quote) "state (self L) \<noteq> QUOTED_FIELD" "c = quotechar (self L)"
      "r = Continue (set_state FIELD L)"
  | (data) "state (self L) \<noteq> QUOTED_FIELD" "c \<noteq> LF" "c \<noteq> CR"
      "case_QUOTED_FIELD c (set_state QUOTED_FIELD L) = Some r"
  using assms unfolding case_QUOTED_FIELD_NEWLINE_def by (fastforce split: if_splits)

lemma case_START_QUOTED_FIELD_cases [consumes 1, case_names blank empty data]:
  assumes "case_START_QUOTED_FIELD h c L = Some r"
  obtains
    (blank) "is_blank c" "strip_whitespace_fields (self L)" "r = Continue L"
  | (empty) L1 where "c = quotechar (self L)" "END_FIELD h L = Some L1" "r = Continue L1"
  | (data) "c \<noteq> quotechar (self L)"
      "case_QUOTED_FIELD_NEWLINE c (set_state QUOTED_FIELD L) = Some r"
  using assms by (auto simp: case_START_QUOTED_FIELD_def split: if_splits)

lemma case_COMMENT_cases [consumes 1, case_names lf cr other]:
  assumes "case_COMMENT c L = Some r"
  obtains
    (lf) "c = LF" "r = Continue (set_state START_LINE L)"
  | (cr) "c = CR" "r = Continue (HANDLE_CR L)"
  | (other) "c \<noteq> LF" "r = Continue L"
  using assms by (auto simp: case_COMMENT_def split: if_splits)

subsection \<open>One pass through the switch\<close>

text \<open>What a step leaves alone: everything but the buffers, the state, the row count and
  the locals \<open>col\<close>, \<open>old_state\<close> and \<open>whitespace\<close>.\<close>

definition kept :: "tokenizer_t \<Rightarrow> tokenizer_t" where
  "kept s = (delete_data s)\<lparr>state := START_LINE, num_rows := 0\<rparr>"

definition step_frame :: "tok_locals \<Rightarrow> tok_locals" where
  "step_frame L = L\<lparr>self := kept (self L), col := 0, old_state := START_LINE, whitespace := True\<rparr>"

definition return_frame :: "tokenizer_t \<Rightarrow> tokenizer_t" where
  "return_frame s = (kept s)\<lparr>code := NO_ERROR, source_pos := 0\<rparr>"

lemma kept_upd [simp]:
  "kept (s\<lparr>state := st\<rparr>) = kept s"
  "kept (s\<lparr>num_rows := n\<rparr>) = kept s"
  "kept (s\<lparr>output_cols := oc\<rparr>) = kept s"
  "kept (s\<lparr>col_ptrs := cp\<rparr>) = kept s"
  "kept (s\<lparr>output_len := ol\<rparr>) = kept s"
  by (simp_all add: kept_def delete_data_def)

lemma step_frame_upd [simp]:
  "step_frame (L\<lparr>self := s\<rparr>) = (step_frame L)\<lparr>self := kept s\<rparr>"
  "step_frame (L\<lparr>col := k\<rparr>) = step_frame L"
  "step_frame (L\<lparr>old_state := os\<rparr>) = step_frame L"
  "step_frame (L\<lparr>whitespace := w\<rparr>) = step_frame L"
  "(step_frame L)\<lparr>self := kept (self L)\<rparr> = step_frame L"
  by (simp_all add: step_frame_def)

lemma return_frame_upd [simp]:
  "return_frame (s\<lparr>state := st\<rparr>) = return_frame s"
  "return_frame (s\<lparr>num_rows := n\<rparr>) = return_frame s"
  "return_frame (s\<lparr>output_cols := oc\<rparr>) = return_frame s"
  "return_frame (s\<lparr>col_ptrs := cp\<rparr>) = return_frame s"
  "return_frame (s\<lparr>output_len := ol\<rparr>) = return_frame s"
  "return_frame (s\<lparr>code := c\<rparr>) = return_frame s"
  "return_frame (s\<lparr>source_pos := p\<rparr>) = return_frame s"
  by (simp_all add: return_frame_def kept_def delete_data_def)

lemma return_frame_step:
  "step_frame L' = step_frame L \<Longrightarrow> return_frame (self L') = return_frame (self L)"
proof -
  assume "step_frame L' = step_frame L"
  then have "self (step_frame L') = self (step_frame L)" by simp
  then show ?thesis by (simp add: step_frame_def return_frame_def)
qed

fun plain_step :: "bool \<Rightarrow> char \<Rightarrow> tok_locals \<Rightarrow> outcome \<Rightarrow> bool" where
  "plain_step h c L (Continue L') \<longleftrightarrow>
     step_frame L' = step_frame L \<and> old_state L' \<noteq> CARRIAGE_RETURN
     \<and> (state (self L') = CARRIAGE_RETURN \<longrightarrow> c = CR)
     \<and> (h \<longrightarrow> num_rows (self L') = num_rows (self L))"
| "plain_step h c L (Return rc s) \<longleftrightarrow>
     return_frame s = return_frame (self L) \<and> code s = rc
     \<and> (h \<longrightarrow> num_rows s = num_rows (self L))"

lemma plain_step_pre:
  assumes "plain_step h c L1 r" and "step_frame L1 = step_frame L"
    and "num_rows (self L1) = num_rows (self L)"
  shows "plain_step h c L r"
proof (cases r)
  case (Continue L')
  then show ?thesis using assms by simp
next
  case (Return rc s)
  then show ?thesis using assms return_frame_step [of L1 L] by simp
qed

lemmas ops_defs = set_state_def BEGIN_FIELD_def HANDLE_CR_def next_row_def RETURN_def

lemma padded_shape:
  assumes "padded L L1"
  shows "\<exists>oc cp ol k. L1 = L\<lparr>self := (self L)\<lparr>output_cols := oc, col_ptrs := cp, output_len := ol\<rparr>, col := k\<rparr>"
proof (cases "fill_extra_cols (self L)")
  case True
  then have "fill_cols L = Some L1" using assms by (simp add: padded_def)
  from locals_shape [OF fill_cols_frame [OF this]] show ?thesis .
next
  case False
  then have "locals_frame L1 = locals_frame L" using assms by (simp add: padded_def)
  from locals_shape [OF this] show ?thesis .
qed

lemma finish_line_plain:
  assumes "finish_line e h L = Some r"
  shows "plain_step h c L r"
  using assms
proof (cases rule: finish_line_cases)
  case header
  then show ?thesis by (simp add: ops_defs)
next
  case short
  then show ?thesis by (simp add: ops_defs)
next
  case (limit L1)
  from padded_shape [OF limit(2)] limit(1,5) show ?thesis by (auto simp: ops_defs)
next
  case (row L1)
  from padded_shape [OF row(2)] row(1,4) show ?thesis by (auto simp: ops_defs)
qed

lemma case_FIELD_plain:
  assumes "case_FIELD e h c L = Some r" "state (self L) \<noteq> CARRIAGE_RETURN"
    "old_state L \<noteq> CARRIAGE_RETURN"
  shows "plain_step h c L r"
  using assms(1)
proof (cases rule: case_FIELD_cases)
  case comment
  then show ?thesis using assms(3) by (simp add: ops_defs)
next
  case (delim L1)
  from END_FIELD_shape [OF delim(2)] delim(3) assms(3) show ?thesis by (auto simp: ops_defs)
next
  case cr
  then show ?thesis using assms(2) by (simp add: ops_defs)
next
  case (lf L1)
  obtain oc cp ol where L1: "L1 = L\<lparr>self := (self L)\<lparr>output_cols := oc, col_ptrs := cp,
      output_len := ol\<rparr>, col := (if h then col L else col L + 1)\<rparr>"
    using END_FIELD_shape [OF lf(2)] by blast
  have "plain_step h c L1 r" using finish_line_plain [OF lf(3)] .
  then show ?thesis by (rule plain_step_pre) (simp_all add: L1)
next
  case (push s1)
  from PUSH_shape [OF push(3)] push(4) assms(2,3) show ?thesis by (auto simp: ops_defs)
qed

lemma backtrack_shape:
  "backtrack h L = Some L' \<Longrightarrow>
     \<exists>oc cp ol k. L' = L\<lparr>self := (self L)\<lparr>output_cols := oc, col_ptrs := cp, output_len := ol\<rparr>, col := k\<rparr>"
  by (rule locals_shape [OF backtrack_frame])

lemma case_START_FIELD_plain:
  assumes "case_START_FIELD e h c L = Some r" "state (self L) \<noteq> CARRIAGE_RETURN"
    "old_state L \<noteq> CARRIAGE_RETURN"
  shows "plain_step h c L r"
  using assms(1)
proof (cases rule: case_START_FIELD_cases)
  case blank
  then show ?thesis using assms(2,3) by simp
next
  case comment
  then show ?thesis using assms(3) by (simp add: ops_defs)
next
  case (delim L1)
  from END_FIELD_shape [OF delim(2)] delim(3) assms(3) show ?thesis by (auto simp: ops_defs)
next
  case cr
  then show ?thesis using assms(2) by (simp add: ops_defs)
next
  case (lf L1)
  have "locals_frame L1 = locals_frame L"
    using lf(2) END_FIELD_frame [of h L L1] backtrack_frame [of h L L1]
    by (simp split: if_splits)
  then obtain oc cp ol k where L1: "L1 = L\<lparr>self := (self L)\<lparr>output_cols := oc,
      col_ptrs := cp, output_len := ol\<rparr>, col := k\<rparr>"
    using locals_shape by blast
  have "plain_step h c L1 r" using finish_line_plain [OF lf(3)] .
  then show ?thesis by (rule plain_step_pre) (simp_all add: L1)
next
  case quote
  then show ?thesis using assms(3) by (simp add: ops_defs)
next
  case too_many
  then show ?thesis by (simp add: ops_defs)
next
  case field
  have "plain_step h c (set_state FIELD L) r"
    using case_FIELD_plain [OF field(6)] assms(3) by (simp add: ops_defs)
  then show ?thesis by (rule plain_step_pre) (simp_all add: ops_defs)
qed

lemma case_START_LINE_plain:
  assumes "case_START_LINE e h c L = Some r" "state (self L) \<noteq> CARRIAGE_RETURN"
    "old_state L \<noteq> CARRIAGE_RETURN"
  shows "plain_step h c L r"
  using assms(1)
proof (cases rule: case_START_LINE_cases)
  case lf
  then show ?thesis using assms(2,3) by simp
next
  case cr
  then show ?thesis using assms(2) by (simp add: ops_defs)
next
  case blank
  then show ?thesis using assms(2,3) by simp
next
  case comment
  then show ?thesis using assms(3) by (simp add: ops_defs)
next
  case field
  have "plain_step h c (BEGIN_FIELD (L\<lparr>col := 0\<rparr>)) r"
    using case_START_FIELD_plain [OF field(3)] assms(3) by (simp add: ops_defs)
  then show ?thesis by (rule plain_step_pre) (simp_all add: ops_defs)
qed

lemma case_QUOTED_FIELD_plain:
  assumes "case_QUOTED_FIELD c L = Some r" "state (self L) \<noteq> CARRIAGE_RETURN"
    "old_state L \<noteq> CARRIAGE_RETURN"
  shows "plain_step h c L r"
  using assms(1)
proof (cases rule: case_QUOTED_FIELD_cases)
  case quote
  then show ?thesis using assms(3) by (simp add: ops_defs)
next
  case lf
  then show ?thesis using assms(3) by (simp add: ops_defs)
next
  case cr
  then show ?thesis using assms(2) by (simp add: ops_defs)
next
  case (push s1)
  from PUSH_shape [OF push(3)] push(4) assms(2,3) show ?thesis by (auto simp: ops_defs)
qed

lemma case_QUOTED_FIELD_NEWLINE_plain:
  assumes "case_QUOTED_FIELD_NEWLINE c L = Some r" "state (self L) \<noteq> CARRIAGE_RETURN"
    "old_state L \<noteq> CARRIAGE_RETURN"
  shows "plain_step h c L r"
  using assms(1)
proof (cases rule: case_QUOTED_FIELD_NEWLINE_cases)
  case through
  then show ?thesis using case_QUOTED_FIELD_plain [OF through(2) assms(2,3)] by simp
next
  case skip
  then show ?thesis using assms(2,3) by simp
next
  case cr
  then show ?thesis using assms(2) by (simp add: ops_defs)
next
  case quote
  then show ?thesis using assms(3) by (simp add: ops_defs)
next
  case data
  have "plain_step h c (set_state QUOTED_FIELD L) r"
    using case_QUOTED_FIELD_plain [OF data(4)] assms(3) by (simp add: ops_defs)
  then show ?thesis by (rule plain_step_pre) (simp_all add: ops_defs)
qed

lemma case_START_QUOTED_FIELD_plain:
  assumes "case_START_QUOTED_FIELD h c L = Some r" "state (self L) \<noteq> CARRIAGE_RETURN"
    "old_state L \<noteq> CARRIAGE_RETURN"
  shows "plain_step h c L r"
  using assms(1)
proof (cases rule: case_START_QUOTED_FIELD_cases)
  case blank
  then show ?thesis using assms(2,3) by simp
next
  case (empty L1)
  from END_FIELD_shape [OF empty(2)] empty(3) assms(2,3) show ?thesis by (auto simp: ops_defs)
next
  case data
  have "plain_step h c (set_state QUOTED_FIELD L) r"
    using case_QUOTED_FIELD_NEWLINE_plain [OF data(2)] assms(3) by (simp add: ops_defs)
  then show ?thesis by (rule plain_step_pre) (simp_all add: ops_defs)
qed

lemma case_COMMENT_plain:
  assumes "case_COMMENT c L = Some r" "state (self L) \<noteq> CARRIAGE_RETURN"
    "old_state L \<noteq> CARRIAGE_RETURN"
  shows "plain_step h c L r"
  using assms(1)
proof (cases rule: case_COMMENT_cases)
  case lf
  then show ?thesis using assms(3) by (simp add: ops_defs)
next
  case cr
  then show ?thesis using assms(2) by (simp add: ops_defs)
next
  case other
  then show ?thesis using assms(2,3) by simp
qed

lemma tok_switch_plain:
  assumes "tok_switch e h c L = Some r" "state (self L) \<noteq> CARRIAGE_RETURN"
    "old_state L \<noteq> CARRIAGE_RETURN"
  shows "plain_step h c L r"
proof (cases "state (self L)")
  case START_LINE
  then show ?thesis using assms case_START_LINE_plain by (simp add: tok_switch_def)
next
  case START_FIELD
  then show ?thesis using assms case_START_FIELD_plain by (simp add: tok_switch_def)
next
  case START_QUOTED_FIELD
  then show ?thesis using assms case_START_QUOTED_FIELD_plain by (simp add: tok_switch_def)
next
  case FIELD
  then show ?thesis using assms case_FIELD_plain by (simp add: tok_switch_def)
next
  case QUOTED_FIELD
  then show ?thesis using assms case_QUOTED_FIELD_plain by (simp add: tok_switch_def)
next
  case QUOTED_FIELD_NEWLINE
  then show ?thesis using assms case_QUOTED_FIELD_NEWLINE_plain by (simp add: tok_switch_def)
next
  case COMMENT
  then show ?thesis using assms case_COMMENT_plain by (simp add: tok_switch_def)
next
  case CARRIAGE_RETURN
  then show ?thesis using assms by simp
qed

section \<open>The loop: an invariant rule, and termination\<close>

definition tok_cond :: "tok_locals \<Rightarrow> bool" where
  "tok_cond L \<longleftrightarrow> source_pos (self L) < source_len (self L) + 1"

lemma tok_loop_rule:
  assumes run: "tok_loop e h L = Some r" and init: "I L"
    and step: "\<And>L L'. I L \<Longrightarrow> tok_cond L \<Longrightarrow> tok_body e h L = Some (Continue L') \<Longrightarrow> I L'"
    and ret: "\<And>L rc s. I L \<Longrightarrow> tok_cond L \<Longrightarrow> tok_body e h L = Some (Return rc s) \<Longrightarrow> Q (Returned rc s)"
    and fin: "\<And>L. I L \<Longrightarrow> \<not> tok_cond L \<Longrightarrow> Q (Returned NO_ERROR ((self L)\<lparr>code := NO_ERROR\<rparr>))"
    and ub: "\<And>L. I L \<Longrightarrow> tok_cond L \<Longrightarrow> tok_body e h L = None \<Longrightarrow> Q Undefined_behaviour"
  shows "Q r"
proof -
  have "e' = e \<longrightarrow> h' = h \<longrightarrow> I L \<longrightarrow> Q r" if "tok_loop e' h' L = Some r" for e' h' L r
    using that
  proof (induction e' h' L r rule: tok_loop.raw_induct [rotated 1, consumes 1, case_names body])
    case (body loop e' h' L r)
    show ?case
    proof (intro impI)
      assume eq: "e' = e" "h' = h" and I: "I L"
      show "Q r"
      proof (cases "tok_cond L")
        case False
        then have "r = Returned NO_ERROR ((self L)\<lparr>code := NO_ERROR\<rparr>)"
          using body.hyps by (simp add: tok_cond_def)
        then show ?thesis using fin [OF I False] by simp
      next
        case True
        show ?thesis
        proof (cases "tok_body e h L")
          case None
          then have "r = Undefined_behaviour" using body.hyps True eq by (simp add: tok_cond_def)
          then show ?thesis using ub [OF I True None] by simp
        next
          case (Some out)
          show ?thesis
          proof (cases out)
            case (Continue L1)
            then have "loop e h L1 = Some r" using body.hyps True eq Some by (simp add: tok_cond_def)
            moreover have "I L1" using step [OF I True] Some Continue by simp
            ultimately show ?thesis using body.IH by blast
          next
            case (Return rc s)
            then have "r = Returned rc s" using body.hyps True eq Some by (simp add: tok_cond_def)
            then show ?thesis using ret [OF I True] Some Return by simp
          qed
        qed
      qed
    qed
  qed
  then show ?thesis using run init by blast
qed

text \<open>The measure that decreases in every iteration.\<close>

definition tok_measure :: "tok_locals \<Rightarrow> int" where
  "tok_measure L =
     3 * (source_len (self L) + 1 - source_pos (self L))
     + (if state (self L) = CARRIAGE_RETURN then 2 else 0)
     - (if parse_newline L then 2 else 0)"

definition cr_inv :: "tok_locals \<Rightarrow> bool" where
  "cr_inv L \<longleftrightarrow>
     old_state L \<noteq> CARRIAGE_RETURN \<and> (parse_newline L \<longrightarrow> state (self L) \<noteq> CARRIAGE_RETURN)"

lemma step_frame_sel:
  assumes "step_frame L' = step_frame L"
  shows "kept (self L') = kept (self L)" "parse_newline L' = parse_newline L"
    "source (self L') = source (self L)" "source_pos (self L') = source_pos (self L)"
    "code (self L') = code (self L)" "num_cols (self L') = num_cols (self L)"
proof -
  have "self (step_frame L') = self (step_frame L)"
    "parse_newline (step_frame L') = parse_newline (step_frame L)"
    using assms by simp_all
  then show k: "kept (self L') = kept (self L)" and "parse_newline L' = parse_newline L"
    by (simp_all add: step_frame_def)
  show "source (self L') = source (self L)" "source_pos (self L') = source_pos (self L)"
    "code (self L') = code (self L)" "num_cols (self L') = num_cols (self L)"
    using arg_cong [OF k, of source] arg_cong [OF k, of source_pos] arg_cong [OF k, of code]
      arg_cong [OF k, of num_cols]
    by (simp_all add: kept_def delete_data_def)
qed

lemma tok_char_LF: "tok_char L = Some c \<Longrightarrow> parse_newline L \<Longrightarrow> c = LF"
  by (simp add: tok_char_def)

text \<open>Every iteration keeps \<open>cr_inv\<close> and decreases the measure.\<close>

lemma tok_body_decreases:
  assumes b: "tok_body e h L = Some (Continue L')" and inv: "cr_inv L"
  shows "cr_inv L' \<and> tok_measure L' < tok_measure L"
proof -
  from b obtain c L1 where c: "tok_char L = Some c"
    and sw: "tok_switch e h c (L\<lparr>parse_newline := False\<rparr>) = Some (Continue L1)"
    and L': "L' = L1\<lparr>self := (self L1)\<lparr>source_pos := source_pos (self L1) + 1\<rparr>\<rparr>"
    by (auto simp: tok_body_def and_then_def split: option.splits outcome.splits)
  show ?thesis
  proof (cases "state (self L) = CARRIAGE_RETURN")
    case True
    then have "parse_newline L = False" using inv by (auto simp: cr_inv_def)
    then show ?thesis using sw L' True inv
      by (auto simp: tok_switch_def case_CARRIAGE_RETURN_def Let_def set_state_def cr_inv_def
          tok_measure_def source_len_def split: if_splits)
  next
    case False
    then have "plain_step h c (L\<lparr>parse_newline := False\<rparr>) (Continue L1)"
      using tok_switch_plain [OF sw] inv by (simp add: cr_inv_def)
    then have f: "step_frame L1 = step_frame (L\<lparr>parse_newline := False\<rparr>)"
      and os: "old_state L1 \<noteq> CARRIAGE_RETURN"
      and st: "state (self L1) = CARRIAGE_RETURN \<longrightarrow> c = CR"
      by simp_all
    from step_frame_sel [OF f] have
      "parse_newline L1 = False" "source (self L1) = source (self L)"
      "source_pos (self L1) = source_pos (self L)" by simp_all
    moreover have "parse_newline L \<longrightarrow> state (self L1) \<noteq> CARRIAGE_RETURN"
      using st tok_char_LF [OF c] by auto
    ultimately show ?thesis using L' os False
      by (auto simp: cr_inv_def tok_measure_def source_len_def)
  qed
qed


section \<open>Observations of a finished call\<close>

definition observe :: "tok_result option \<Rightarrow> (err_code \<times> int \<times> char list list) option" where
  "observe r =
     (case r of
        Some (Returned c s) \<Rightarrow> Some (c, num_rows s, map (packed s) [0..<length (output_cols s)])
      | _ \<Rightarrow> None)"

definition csv_tokenizer :: "bool \<Rightarrow> bool \<Rightarrow> bool \<Rightarrow> char list \<Rightarrow> tokenizer_t" where
  "csv_tokenizer fill strip_lines strip_fields bytes =
     set_source bytes
       (create_tokenizer (CHR '','') (CHR ''#'') (CHR 0x22) fill strip_lines strip_fields True)"


lemma return_frame_kept: "kept s' = kept s \<Longrightarrow> return_frame s' = return_frame s"
  by (simp add: return_frame_def)

text \<open>What an iteration of the loop leaves alone, whatever the state.\<close>

fun keeps :: "bool \<Rightarrow> tok_locals \<Rightarrow> outcome \<Rightarrow> bool" where
  "keeps h L (Continue L') \<longleftrightarrow>
     return_frame (self L') = return_frame (self L) \<and> code (self L') = code (self L)
     \<and> (h \<longrightarrow> num_rows (self L') = num_rows (self L))"
| "keeps h L (Return rc s) \<longleftrightarrow>
     return_frame s = return_frame (self L) \<and> code s = rc
     \<and> (h \<longrightarrow> num_rows s = num_rows (self L))"

lemma tok_body_keeps:
  assumes b: "tok_body e h L = Some out" and inv: "cr_inv L"
  shows "keeps h L out"
proof -
  from b obtain c out1 where c: "tok_char L = Some c"
    and sw: "tok_switch e h c (L\<lparr>parse_newline := False\<rparr>) = Some out1"
    and out: "out = (case out1 of Return rc s \<Rightarrow> Return rc s
       | Continue L1 \<Rightarrow> Continue (L1\<lparr>self := (self L1)\<lparr>source_pos := source_pos (self L1) + 1\<rparr>\<rparr>))"
    by (auto simp: tok_body_def and_then_def split: option.splits outcome.splits)
  show ?thesis
  proof (cases "state (self L) = CARRIAGE_RETURN")
    case True
    then show ?thesis using sw out
      by (auto simp: tok_switch_def case_CARRIAGE_RETURN_def Let_def set_state_def
          split: if_splits)
  next
    case False
    then have p: "plain_step h c (L\<lparr>parse_newline := False\<rparr>) out1"
      using tok_switch_plain [OF sw] inv by (simp add: cr_inv_def)
    show ?thesis
    proof (cases out1)
      case (Continue L1)
      then have f: "step_frame L1 = step_frame (L\<lparr>parse_newline := False\<rparr>)"
        and n: "h \<longrightarrow> num_rows (self L1) = num_rows (self L)"
        using p by simp_all
      from step_frame_sel(1,5) [OF f] return_frame_kept [of "self L1" "self L"] n
      show ?thesis using out Continue by simp
    next
      case (Return rc s)
      then show ?thesis using p out by simp
    qed
  qed
qed




section \<open>The column buffers\<close>

text \<open>The column arrays are well formed: one block, one write pointer and one length per
  column, the recorded length is the length of the block and is positive, and the write
  pointer is inside the block or just behind it.\<close>

definition cols_ok :: "tokenizer_t \<Rightarrow> bool" where
  "cols_ok s \<longleftrightarrow>
     length (output_cols s) = nat (num_cols s) \<and> length (col_ptrs s) = nat (num_cols s)
     \<and> length (output_len s) = nat (num_cols s)
     \<and> (\<forall>i < nat (num_cols s).
           output_len s ! i = int (length (output_cols s ! i)) \<and> 0 < output_len s ! i
           \<and> 0 \<le> col_ptrs s ! i \<and> col_ptrs s ! i \<le> output_len s ! i)"









subsection \<open>The end of a field\<close>

















subsection \<open>What a step never takes back\<close>

text \<open>From \<open>s\<close> to \<open>s'\<close> the column arrays stay well formed, no row is lost, and a terminated
  field that a column holds stays where it is.\<close>

definition grows :: "tokenizer_t \<Rightarrow> tokenizer_t \<Rightarrow> bool" where
  "grows s s' \<longleftrightarrow>
     cols_ok s' \<and> num_cols s' = num_cols s \<and> fill_extra_cols s' = fill_extra_cols s
     \<and> num_rows s \<le> num_rows s'
     \<and> (\<forall>i xs. prefix (xs @ [CHR 0x00]) (packed s i) \<longrightarrow> prefix (xs @ [CHR 0x00]) (packed s' i))"



lemma cols_ok_upd [simp]:
  "cols_ok (s\<lparr>state := st\<rparr>) = cols_ok s" "cols_ok (s\<lparr>source_pos := p\<rparr>) = cols_ok s"
  "cols_ok (s\<lparr>code := c\<rparr>) = cols_ok s" "cols_ok (s\<lparr>num_rows := n\<rparr>) = cols_ok s"
  "cols_ok (s\<lparr>fill_extra_cols := f\<rparr>) = cols_ok s"
  by (simp_all add: cols_ok_def)

lemma packed_upd [simp]:
  "packed (s\<lparr>state := st\<rparr>) = packed s" "packed (s\<lparr>source_pos := p\<rparr>) = packed s"
  "packed (s\<lparr>code := c\<rparr>) = packed s" "packed (s\<lparr>num_rows := n\<rparr>) = packed s"
  "packed (s\<lparr>fill_extra_cols := f\<rparr>) = packed s"
  by (simp_all add: packed_def fun_eq_iff)

lemma grows_upd [simp]:
  "grows s (s'\<lparr>state := st\<rparr>) = grows s s'" "grows s (s'\<lparr>source_pos := p\<rparr>) = grows s s'"
  "grows s (s'\<lparr>code := c\<rparr>) = grows s s'"
  "grows (s\<lparr>state := st\<rparr>) s' = grows s s'" "grows (s\<lparr>source_pos := p\<rparr>) s' = grows s s'"
  "grows (s\<lparr>code := c\<rparr>) s' = grows s s'"
  by (simp_all add: grows_def)

























section \<open>Properties of the line skipper and of the iterator\<close>

text \<open>
  Claim C10. For every offset less than or equal to 0, in header mode and in data mode and
  for every input, \<^verbatim>\<open>skip_lines\<close> returns \<^verbatim>\<open>NO_ERROR\<close>, sets \<^verbatim>\<open>code\<close> to \<^verbatim>\<open>NO_ERROR\<close> and
  leaves \<^verbatim>\<open>source_pos\<close> (and every other field) as it was.
\<close>

theorem skip_lines_nonpositive_offset:
  "offset \<le> 0 \<Longrightarrow> skip_lines offset header s = Returned NO_ERROR (s\<lparr>code := NO_ERROR\<rparr>)"
  by (simp add: skip_lines_def skip_loop.simps)

theorem skip_lines_nonpositive_offset_witness:
  "(- 2 :: int) \<le> 0 \<and>
   skip_lines (- 2) True
     ((set_source ''ab'' (create_tokenizer (CHR '','') (CHR ''#'') (CHR 0x22) False True True True))
        \<lparr>source_pos := 1, code := TOO_MANY_COLS\<rparr>)
   = Returned NO_ERROR
       ((set_source ''ab'' (create_tokenizer (CHR '','') (CHR ''#'') (CHR 0x22) False True True True))
          \<lparr>source_pos := 1, code := NO_ERROR\<rparr>)"
  using skip_lines_nonpositive_offset [of "- 2" True
      "(set_source ''ab'' (create_tokenizer (CHR '','') (CHR ''#'') (CHR 0x22) False True True True))
         \<lparr>source_pos := 1, code := TOO_MANY_COLS\<rparr>"]
  by simp

subsection \<open>The lines of the specification\<close>

text \<open>
  The specification's words for the line skipper, as definitions of their own: a line is
  ended by \<^verbatim>\<open>\r\n\<close>, by a lone \<^verbatim>\<open>\r\<close> or by a lone \<^verbatim>\<open>\n\<close>; a byte is stripped when it is a blank,
  \<^verbatim>\<open>strip_whitespace_lines\<close> is on and the call is not for the header; a line is significant
  when a byte of it is not stripped and the first such byte is not the comment character.
  Bytes behind the last line terminator are not a line that is found.
\<close>

definition not_eol :: "char \<Rightarrow> bool" where
  "not_eol c \<longleftrightarrow> c \<noteq> CR \<and> c \<noteq> LF"

function terminated_lines :: "char list \<Rightarrow> char list list" where
  "terminated_lines cs =
     (case dropWhile not_eol cs of
        [] \<Rightarrow> []
      | c # r \<Rightarrow> takeWhile not_eol cs
                 # terminated_lines (if c = CR \<and> r \<noteq> [] \<and> hd r = LF then tl r else r))"
  by pat_completeness auto
termination
proof (relation "measure length")
  show "wf (measure length)" by simp
next
  fix cs :: "char list" and c r
  assume "dropWhile not_eol cs = c # r"
  then have "length r < length cs"
    using length_dropWhile_le [of not_eol cs] by simp
  moreover have "length (if c = CR \<and> r \<noteq> [] \<and> hd r = LF then tl r else r) \<le> length r"
    by simp
  ultimately have "length (if c = CR \<and> r \<noteq> [] \<and> hd r = LF then tl r else r) < length cs"
    by linarith
  then show "((if c = CR \<and> r \<noteq> [] \<and> hd r = LF then tl r else r), cs) \<in> measure length"
    by (simp only: in_measure)
qed

declare terminated_lines.simps [simp del]

definition significant_bytes :: "bool \<Rightarrow> bool \<Rightarrow> char list \<Rightarrow> char list" where
  "significant_bytes header strip line = filter (\<lambda>c. \<not> is_blank c \<or> \<not> strip \<or> header) line"

definition significant_line :: "char \<Rightarrow> bool \<Rightarrow> bool \<Rightarrow> char list \<Rightarrow> bool" where
  "significant_line cm header strip line \<longleftrightarrow>
     (case significant_bytes header strip line of
        [] \<Rightarrow> False
      | c # _ \<Rightarrow> \<not> (cm \<noteq> CHR 0x00 \<and> c = cm))"

text \<open>The number of significant lines that the input has from the cursor on.\<close>

definition lines_found :: "bool \<Rightarrow> tokenizer_t \<Rightarrow> nat" where
  "lines_found header s =
     length (filter (significant_line (comment s) header (strip_whitespace_lines s))
               (terminated_lines (drop (nat (source_pos s)) (source s))))"

subsection \<open>The loop of the line skipper against the lines of the specification\<close>

text \<open>The two locals \<^verbatim>\<open>signif_chars\<close> and \<^verbatim>\<open>comment\<close>, from the bytes seen of the line.\<close>

definition line_flags :: "char \<Rightarrow> bool \<Rightarrow> bool \<Rightarrow> char list \<Rightarrow> int \<times> bool" where
  "line_flags cm header strip seen =
     (int (length (significant_bytes header strip seen)),
      (case significant_bytes header strip seen of
         [] \<Rightarrow> False | c # _ \<Rightarrow> cm \<noteq> CHR 0x00 \<and> c = cm))"

lemma line_flags_snoc:
  "line_flags cm header strip (seen @ [c]) =
     (if \<not> is_blank c \<or> \<not> strip \<or> header
      then (fst (line_flags cm header strip seen) + 1,
            (if fst (line_flags cm header strip seen) = 0 \<and> cm \<noteq> CHR 0x00 \<and> c = cm
             then True else snd (line_flags cm header strip seen)))
      else line_flags cm header strip seen)"
  by (cases "significant_bytes header strip seen")
     (auto simp: line_flags_def significant_bytes_def)

lemma line_flags_significant:
  "significant_line cm header strip seen \<longleftrightarrow>
     \<not> snd (line_flags cm header strip seen) \<and> 0 < fst (line_flags cm header strip seen)"
  by (cases "significant_bytes header strip seen")
     (auto simp: line_flags_def significant_line_def)

lemma drop_Cons_nth:
  assumes "drop p xs = y # ys"
  shows "p < length xs" "xs ! p = y" "drop (Suc p) xs = ys"
proof -
  show p: "p < length xs" using assms by (cases "p < length xs") auto
  from Cons_nth_drop_Suc [OF p] assms show "xs ! p = y" "drop (Suc p) xs = ys" by simp_all
qed

lemma drop_nth_src:
  assumes "drop p (source s) = c # r"
  shows "source_at (s\<lparr>source_pos := int p\<rparr>) (int p) = Some c"
    "\<not> source_len (s\<lparr>source_pos := int p\<rparr>) \<le> int p" "int p < source_len s"
  using drop_Cons_nth(1,2) [OF assms] by (simp_all add: source_at_def source_len_def)

text \<open>The bytes of a line, up to its terminator.\<close>

lemma skip_loop_line:
  "\<forall>c \<in> set l. not_eol c \<Longrightarrow> drop p (source s) = l @ r \<Longrightarrow> i < offset \<Longrightarrow>
     (sc, comm) = line_flags (comment s) header (strip_whitespace_lines s) seen \<Longrightarrow>
     skip_loop offset header sc comm i (s\<lparr>source_pos := int p\<rparr>)
       = skip_loop offset header
           (fst (line_flags (comment s) header (strip_whitespace_lines s) (seen @ l)))
           (snd (line_flags (comment s) header (strip_whitespace_lines s) (seen @ l)))
           i (s\<lparr>source_pos := int (p + length l)\<rparr>)"
proof (induction l arbitrary: p seen sc comm)
  case Nil
  then show ?case by (cases "line_flags (comment s) header (strip_whitespace_lines s) seen") simp
next
  case (Cons c l)
  let ?F = "line_flags (comment s) header (strip_whitespace_lines s)"
  have d: "drop p (source s) = c # (l @ r)" using Cons.prems(2) by simp
  note A = drop_nth_src [OF d]
  have d2: "drop (Suc p) (source s) = l @ r" using drop_Cons_nth(3) [OF d] .
  have ne: "c \<noteq> CR" "c \<noteq> LF" using Cons.prems(1) by (simp_all add: not_eol_def)
  have sc: "sc = fst (?F seen)" "comm = snd (?F seen)"
    using Cons.prems(4) by (metis fst_conv, metis snd_conv)
  have step: "skip_loop offset header sc comm i (s\<lparr>source_pos := int p\<rparr>)
      = skip_loop offset header (fst (?F (seen @ [c]))) (snd (?F (seen @ [c]))) i
          (s\<lparr>source_pos := int (Suc p)\<rparr>)"
    using A(1,2) ne Cons.prems(3)
    by (subst skip_loop.simps) (simp add: line_flags_snoc sc Let_def add.commute)
  have "skip_loop offset header (fst (?F (seen @ [c]))) (snd (?F (seen @ [c]))) i
          (s\<lparr>source_pos := int (Suc p)\<rparr>)
      = skip_loop offset header (fst (?F ((seen @ [c]) @ l))) (snd (?F ((seen @ [c]) @ l))) i
          (s\<lparr>source_pos := int (Suc p + length l)\<rparr>)"
    using Cons.prems(1,3) d2 by (intro Cons.IH) simp_all
  then show ?case using step by simp
qed

text \<open>A line terminator.\<close>

lemma source_moved:
  "source_len (s\<lparr>source_pos := x\<rparr>) = source_len s"
  "source_at (s\<lparr>source_pos := x\<rparr>) q = source_at s q"
  by (simp_all add: source_len_def source_at_def)

lemma skip_loop_eol:
  assumes d: "drop p (source s) = c # r" and c: "\<not> not_eol c" and i: "i < offset"
    and f: "(sc, comm) = line_flags (comment s) header (strip_whitespace_lines s) seen"
  shows "skip_loop offset header sc comm i (s\<lparr>source_pos := int p\<rparr>)
       = skip_loop offset header 0 False
           (if significant_line (comment s) header (strip_whitespace_lines s) seen
            then i + 1 else i)
           (s\<lparr>source_pos := int (p + (if c = CR \<and> r \<noteq> [] \<and> hd r = LF then 2 else 1))\<rparr>)"
proof -
  let ?F = "line_flags (comment s) header (strip_whitespace_lines s)"
  have at: "source_at s (int p) = Some c" and len: "\<not> source_len s \<le> int p"
    using drop_Cons_nth(1,2) [OF d] by (simp_all add: source_at_def source_len_def)
  have sc: "sc = fst (?F seen)" "comm = snd (?F seen)"
    using f by (metis fst_conv, metis snd_conv)
  have sig: "significant_line (comment s) header (strip_whitespace_lines s) seen
      \<longleftrightarrow> \<not> comm \<and> 0 < sc"
    by (simp add: line_flags_significant sc)
  have d2: "drop (Suc p) (source s) = r" using drop_Cons_nth(3) [OF d] .
  have nxt: "int p < source_len s - 1 \<and> source_at s (int p + 1) = Some LF
      \<longleftrightarrow> r \<noteq> [] \<and> hd r = LF"
  proof (cases r)
    case Nil
    then have "length (source s) \<le> Suc p" using d2 by simp
    then show ?thesis using Nil by (simp add: source_len_def)
  next
    case (Cons x r')
    then have "Suc p < length (source s)" "source s ! Suc p = x"
      using drop_Cons_nth(1,2) [of "Suc p" "source s" x r'] d2 by simp_all
    then show ?thesis using Cons
      by (auto simp: source_len_def source_at_def nat_add_distrib)
  qed
  have eol: "c = CR \<or> c = LF" using c by (simp add: not_eol_def)
  let ?i1 = "if \<not> comm \<and> 0 < sc then i + 1 else i"
  show ?thesis
  proof (cases "c = CR \<and> int p < source_len s - 1 \<and> source_at s (int p + 1) = Some LF")
    case True
    then have "skip_loop offset header sc comm i (s\<lparr>source_pos := int p\<rparr>)
        = skip_loop offset header 0 False ?i1 (s\<lparr>source_pos := int (p + 2)\<rparr>)"
      using at len i by (subst skip_loop.simps) (simp add: Let_def source_moved)
    moreover have "(c = CR \<and> r \<noteq> [] \<and> hd r = LF) = True" using True nxt by simp
    ultimately show ?thesis by (simp only: sig if_True)
  next
    case False
    then consider "c \<noteq> CR" | "\<not> int p < source_len s - 1"
      | "source_at s (int p + 1) \<noteq> Some LF" by blast
    then have "skip_loop offset header sc comm i (s\<lparr>source_pos := int p\<rparr>)
        = skip_loop offset header 0 False ?i1 (s\<lparr>source_pos := int p + 1\<rparr>)"
    proof cases
      case 1
      then show ?thesis using at len i eol by (subst skip_loop.simps) (simp add: Let_def source_moved)
    next
      case 2
      then show ?thesis using at len i eol by (subst skip_loop.simps) (simp add: Let_def source_moved)
    next
      case 3
      then show ?thesis using at len i eol by (subst skip_loop.simps) (simp add: Let_def source_moved)
    qed
    moreover have "(c = CR \<and> r \<noteq> [] \<and> hd r = LF) = False" using False nxt by simp
    ultimately show ?thesis by (simp only: sig if_False of_nat_add of_nat_1)
  qed
qed

text \<open>The end of the input.\<close>

lemma skip_loop_end:
  assumes "source_len s \<le> source_pos s" and "i < offset"
  shows "skip_loop offset header sc comm i s
     = Returned (if header then INVALID_LINE else NO_ERROR)
         (s\<lparr>code := (if header then INVALID_LINE else NO_ERROR)\<rparr>)"
  using assms by (subst skip_loop.simps) simp

lemma terminated_lines_none:
  assumes "dropWhile not_eol cs = []"
  shows "terminated_lines cs = []"
  by (subst terminated_lines.simps) (simp only: assms list.case)

lemma terminated_lines_some:
  assumes "dropWhile not_eol cs = c # r"
  shows "terminated_lines cs = takeWhile not_eol cs
        # terminated_lines (if c = CR \<and> r \<noteq> [] \<and> hd r = LF then tl r else r)"
  by (subst terminated_lines.simps) (simp only: assms list.case)

text \<open>The loop from the start of a line: when fewer than \<open>offset - i\<close> significant lines
  are left, the input ends first.\<close>

lemma skip_loop_ends:
  assumes cfg: "cm = comment s" "strip = strip_whitespace_lines s"
  shows "drop p (source s) = cs \<Longrightarrow>
     i + int (length (filter (significant_line cm header strip) (terminated_lines cs))) < offset \<Longrightarrow>
     skip_loop offset header 0 False i (s\<lparr>source_pos := int p\<rparr>)
       = Returned (if header then INVALID_LINE else NO_ERROR)
           (s\<lparr>source_pos := int (max p (length (source s))),
              code := (if header then INVALID_LINE else NO_ERROR)\<rparr>)"
proof (induction cs arbitrary: p i rule: terminated_lines.induct)
  case (1 cs)
  let ?l = "takeWhile not_eol cs"
  have fl: "(0, False) = line_flags (comment s) header (strip_whitespace_lines s) []"
    by (simp add: line_flags_def significant_bytes_def)
  have i: "i < offset" using "1.prems"(2) by linarith
  have l: "\<forall>c \<in> set ?l. not_eol c" by (auto dest: set_takeWhileD)
  have split: "drop p (source s) = ?l @ dropWhile not_eol cs" using "1.prems"(1) by simp
  from skip_loop_line [OF l split i fl]
  have line: "skip_loop offset header 0 False i (s\<lparr>source_pos := int p\<rparr>)
      = skip_loop offset header
          (fst (line_flags (comment s) header (strip_whitespace_lines s) ?l))
          (snd (line_flags (comment s) header (strip_whitespace_lines s) ?l))
          i (s\<lparr>source_pos := int (p + length ?l)\<rparr>)" by simp
  show ?case
  proof (cases "dropWhile not_eol cs")
    case Nil
    then have "?l = cs" by (metis append_Nil2 takeWhile_dropWhile_id)
    moreover have "length cs = length (source s) - p" using "1.prems"(1) by auto
    ultimately have "length (source s) - p = length ?l" by metis
    then have e: "source_len (s\<lparr>source_pos := int (p + length ?l)\<rparr>)
        \<le> source_pos (s\<lparr>source_pos := int (p + length ?l)\<rparr>)"
      and m: "max p (length (source s)) = p + length ?l"
      by (simp_all add: source_len_def)
    show ?thesis unfolding line skip_loop_end [OF e i] m by simp
  next
    case (Cons c r)
    let ?r' = "if c = CR \<and> r \<noteq> [] \<and> hd r = LF then tl r else r"
    let ?n = "if c = CR \<and> r \<noteq> [] \<and> hd r = LF then 2 else (1::nat)"
    let ?i' = "if significant_line (comment s) header (strip_whitespace_lines s) ?l
               then i + 1 else i"
    have c: "\<not> not_eol c" using Cons by (metis dropWhile_eq_Cons_conv)
    have d: "drop (p + length ?l) (source s) = c # r"
      using split Cons by (metis add.commute append_eq_conv_conj drop_drop)
    have "line_flags (comment s) header (strip_whitespace_lines s) ?l
        = (fst (line_flags (comment s) header (strip_whitespace_lines s) ?l),
           snd (line_flags (comment s) header (strip_whitespace_lines s) ?l))" by simp
    from skip_loop_eol [OF d c i this [symmetric]]
    have eol: "skip_loop offset header
          (fst (line_flags (comment s) header (strip_whitespace_lines s) ?l))
          (snd (line_flags (comment s) header (strip_whitespace_lines s) ?l))
          i (s\<lparr>source_pos := int (p + length ?l)\<rparr>)
        = skip_loop offset header 0 False ?i' (s\<lparr>source_pos := int (p + length ?l + ?n)\<rparr>)" .
    have d': "drop (p + length ?l + ?n) (source s) = ?r'"
    proof -
      have "drop (Suc (p + length ?l)) (source s) = r" using drop_Cons_nth(3) [OF d] .
      moreover have "drop (Suc (Suc (p + length ?l))) (source s) = tl r"
        using drop_Cons_nth(3) [OF d] by (metis drop_Suc tl_drop)
      ultimately show ?thesis by simp
    qed
    have cnt: "?i' + int (length (filter (significant_line cm header strip) (terminated_lines ?r')))
        < offset"
      using "1.prems"(2) unfolding terminated_lines_some [OF Cons]
      by (cases "significant_line (comment s) header (strip_whitespace_lines s) ?l")
         (simp_all add: cfg)
    have lt: "p + length ?l + ?n \<le> length (source s)"
    proof -
      have a: "length (source s) - (p + length ?l) = Suc (length r)"
        using arg_cong [OF d, of length] by simp
      show ?thesis
      proof (cases "c = CR \<and> r \<noteq> [] \<and> hd r = LF")
        case True
        then have "0 < length r" by simp
        then have "p + length ?l + 2 \<le> length (source s)" using a by linarith
        then show ?thesis using True by simp
      next
        case False
        have "p + length ?l + 1 \<le> length (source s)" using a by linarith
        then show ?thesis using False by auto
      qed
    qed
    have "p \<le> length (source s)" using lt by linarith
    then have m: "max (p + length ?l + ?n) (length (source s)) = max p (length (source s))"
      using lt by linarith
    from "1.IH" [OF Cons d' cnt] show ?thesis unfolding line eol m .
  qed
qed

text \<open>
  Claim C6. When the input from the cursor on ends before \<open>offset\<close> significant lines are
  found and the cursor is not negative, \<^verbatim>\<open>skip_lines\<close> returns \<^verbatim>\<open>INVALID_LINE\<close> for the header and \<^verbatim>\<open>NO_ERROR\<close> for the data, with
  that code in \<^verbatim>\<open>code\<close> and the cursor at the end of the input. The lines that are found are
  the terminated ones: bytes behind the last terminator do not make a line, so that the
  statement covers every input whose lines, the unterminated one counted or not, are too
  few.
\<close>

theorem skip_lines_input_ends:
  assumes "0 \<le> source_pos s" and "int (lines_found header s) < offset"
  shows "skip_lines offset header s
     = Returned (if header then INVALID_LINE else NO_ERROR)
         (s\<lparr>source_pos := max (source_pos s) (source_len s),
            code := (if header then INVALID_LINE else NO_ERROR)\<rparr>)"
proof -
  let ?p = "nat (source_pos s)"
  have s: "s\<lparr>source_pos := int ?p\<rparr> = s" using assms(1) by simp
  have mx: "int (max ?p (length (source s))) = max (source_pos s) (source_len s)"
    using assms(1) by (simp add: source_len_def)
  have cnt: "0 + int (length (filter
      (significant_line (comment s) header (strip_whitespace_lines s))
      (terminated_lines (drop ?p (source s))))) < offset"
    using assms(2) by (simp add: lines_found_def)
  have "skip_loop offset header 0 False 0 (s\<lparr>source_pos := int ?p\<rparr>)
     = Returned (if header then INVALID_LINE else NO_ERROR)
         (s\<lparr>source_pos := int (max ?p (length (source s))),
            code := (if header then INVALID_LINE else NO_ERROR)\<rparr>)"
    by (rule skip_loop_ends [OF refl refl refl cnt])
  then show ?thesis unfolding skip_lines_def s mx .
qed

theorem skip_lines_input_ends_witness:
  "skip_lines 3 True (csv_tokenizer False True True (''a'' @ [LF] @ '' '' @ [LF] @ ''#b'' @ [LF] @ ''c''))
     = Returned INVALID_LINE
         ((csv_tokenizer False True True (''a'' @ [LF] @ '' '' @ [LF] @ ''#b'' @ [LF] @ ''c''))
            \<lparr>source_pos := 8, code := INVALID_LINE\<rparr>)
   \<and> skip_lines 2 False (csv_tokenizer False True True (''a'' @ [LF] @ '' '' @ [LF] @ ''#b'' @ [LF] @ ''c''))
     = Returned NO_ERROR
         ((csv_tokenizer False True True (''a'' @ [LF] @ '' '' @ [LF] @ ''#b'' @ [LF] @ ''c''))
            \<lparr>source_pos := 8, code := NO_ERROR\<rparr>)"
proof -
  let ?t = "csv_tokenizer False True True (''a'' @ [LF] @ '' '' @ [LF] @ ''#b'' @ [LF] @ ''c'')"
  have h: "0 \<le> source_pos ?t" "int (lines_found False ?t) < 2" "int (lines_found True ?t) < 3"
    "max (source_pos ?t) (source_len ?t) = 8"
    by code_simp+
  show ?thesis
    using skip_lines_input_ends [of ?t False 2] skip_lines_input_ends [of ?t True 3] h by simp
qed

subsection \<open>The iterator\<close>

lemma scan_field_in_block: "scan_field b p = Some r \<Longrightarrow> in_block b p"
  by (subst (asm) scan_field.simps) (simp split: if_splits)

lemma scan_field_finds:
  "in_block b q \<Longrightarrow> b ! nat q = CHR 0x00 \<Longrightarrow> 0 \<le> p \<Longrightarrow> p \<le> q \<Longrightarrow>
     \<exists>r. scan_field b p = Some r"
proof (induction b p rule: scan_field.induct)
  case (1 b p)
  have inb: "in_block b p" using "1.prems" by (simp add: in_block_def)
  show ?case
  proof (cases "b ! nat p = CHR 0x00")
    case True
    then show ?thesis using inb by (simp add: scan_field.simps)
  next
    case False
    then have "p \<noteq> q" using "1.prems" by auto
    then have "p + 1 \<le> q" using "1.prems" by simp
    then have "\<exists>r. scan_field b (p + 1) = Some r"
      using "1.IH" [OF inb False] "1.prems" by simp
    then show ?thesis using inb False by (simp add: scan_field.simps)
  qed
qed

lemma begins_with_drop:
  "in_block b p \<Longrightarrow> begins_with c (drop (nat p) b) \<longleftrightarrow> b ! nat p = c"
proof -
  assume "in_block b p"
  then have "nat p < length b" by (auto simp: in_block_def)
  then have "drop (nat p) b = b ! nat p # drop (Suc (nat p)) b"
    by (simp add: Cons_nth_drop_Suc)
  then show ?thesis by (simp add: begins_with_def)
qed

lemma next_field_not_sentinel:
  assumes nf: "next_field s = Some ((p, n), s')" and b: "buf s = replicate 2 (CHR 0x00)"
  shows "\<not> begins_with (CHR 0x01) (bytes_at s' p)"
proof -
  let ?b = "output_cols s ! nat (iter_col s)"
  from nf obtain r where sc: "scan_field ?b (curr_pos s) = Some r"
    and s': "s' = s\<lparr>curr_pos := r + 1\<rparr>"
    by (auto simp: next_field_def Let_def split: if_splits option.splits)
  have inb: "in_block ?b (curr_pos s)" using sc by (rule scan_field_in_block)
  show ?thesis
  proof (cases "?b ! nat (curr_pos s) = CHR 0x01")
    case True
    then have "p = Empty_buf" using nf sc
      by (auto simp: next_field_def Let_def split: if_splits)
    then show ?thesis using b s'
      by (simp add: bytes_at_def begins_with_def numeral_2_eq_2)
  next
    case False
    then have "p = In_col (iter_col s) (curr_pos s)" using nf sc
      by (auto simp: next_field_def Let_def split: if_splits)
    then show ?thesis using False s' begins_with_drop [OF inb]
      by (simp add: bytes_at_def)
  qed
qed

text \<open>
  Claim C8. Let the iteration cursor stand on a terminated field of its column (a zero
  byte follows at some offset \<open>q\<close>), in a tokenizer whose block \<^verbatim>\<open>buf\<close> is as
  \<^verbatim>\<open>create_tokenizer\<close> allocated it. Then \<^verbatim>\<open>next_field\<close> returns; when the field begins with
  the byte 0x01 it reports length 0 and returns the pointer to \<^verbatim>\<open>buf\<close>, which is no pointer into
  a column; and the bytes behind the returned pointer never begin with 0x01, whatever the
  input was.
\<close>

theorem next_field_empty_encoding:
  assumes "valid_iter s" and "buf s = replicate 2 (CHR 0x00)"
    and "0 \<le> curr_pos s" and "curr_pos s \<le> q"
    and "in_block (output_cols s ! nat (iter_col s)) q"
    and "output_cols s ! nat (iter_col s) ! nat q = CHR 0x00"
  shows "\<exists>p n s'. next_field s = Some ((p, n), s')
           \<and> (output_cols s ! nat (iter_col s) ! nat (curr_pos s) = CHR 0x01
                \<longrightarrow> p = Empty_buf \<and> n = 0 \<and> (\<forall>k off. p \<noteq> In_col k off))
           \<and> \<not> begins_with (CHR 0x01) (bytes_at s' p)"
proof -
  obtain r where sc: "scan_field (output_cols s ! nat (iter_col s)) (curr_pos s) = Some r"
    using scan_field_finds [OF assms(5) assms(6) assms(3) assms(4)] by blast
  then have "\<exists>p n s'. next_field s = Some ((p, n), s')"
    using assms(1) by (simp add: next_field_def Let_def)
  then obtain p n s' where nf: "next_field s = Some ((p, n), s')"
    by blast
  have "output_cols s ! nat (iter_col s) ! nat (curr_pos s) = CHR 0x01
          \<longrightarrow> p = Empty_buf \<and> n = 0 \<and> (\<forall>k off. p \<noteq> In_col k off)"
    using nf sc assms(1) by (auto simp: next_field_def Let_def)
  moreover have "\<not> begins_with (CHR 0x01) (bytes_at s' p)"
    using next_field_not_sentinel [OF nf assms(2)] .
  ultimately show ?thesis using nf by blast
qed

text \<open>A tokenizer whose column 1 holds an empty field and the field \<open>7\<close>, iterated.\<close>

definition witness_iter :: tokenizer_t where
  "witness_iter =
     start_iteration 1
       ((create_tokenizer (CHR '','') (CHR ''#'') (CHR 0x22) False True True True)
          \<lparr>output_cols := [[CHR ''1'', CHR 0x00, CHR ''2'', CHR 0x00, CHR 0x00, CHR 0x00],
                            [CHR 0x01, CHR 0x00, CHR ''7'', CHR 0x00, CHR 0x00, CHR 0x00]],
            col_ptrs := [4, 4], output_len := [6, 6], num_cols := 2, num_rows := 2\<rparr>)"

theorem next_field_empty_encoding_witness:
  "\<exists>p n s'. next_field witness_iter = Some ((p, n), s')
           \<and> (output_cols witness_iter ! nat (iter_col witness_iter)
                  ! nat (curr_pos witness_iter) = CHR 0x01
                \<longrightarrow> p = Empty_buf \<and> n = 0 \<and> (\<forall>k off. p \<noteq> In_col k off))
           \<and> \<not> begins_with (CHR 0x01) (bytes_at s' p)"
  using next_field_empty_encoding [of witness_iter 1]
  by (simp add: witness_iter_def start_iteration_def create_tokenizer_def valid_iter_def
        in_block_def)



section \<open>Header mode\<close>



subsection \<open>A header line of plain fields\<close>



text \<open>The locals of a header call on the input of \<open>t\<close>, in state \<open>st\<close> at offset \<open>p\<close>, with the
  bytes \<open>acc\<close> in column 0.\<close>

definition hdr_at :: "tokenizer_t \<Rightarrow> tokenizer_state \<Rightarrow> nat \<Rightarrow> char list \<Rightarrow> tok_locals \<Rightarrow> bool" where
  "hdr_at t st p acc L \<longleftrightarrow>
     source (self L) = source t \<and> delimiter (self L) = delimiter t
     \<and> comment (self L) = comment t \<and> quotechar (self L) = quotechar t
     \<and> num_cols (self L) = 1 \<and> num_rows (self L) = 0 \<and> cols_ok (self L)
     \<and> state (self L) = st \<and> source_pos (self L) = int p \<and> col L = 0 \<and> \<not> parse_newline L
     \<and> packed (self L) 0 = acc"






lemma hdr_at_upd [simp]:
  "hdr_at t st p acc (L\<lparr>whitespace := w\<rparr>) = hdr_at t st p acc L"
  "hdr_at t st p acc (L\<lparr>old_state := os\<rparr>) = hdr_at t st p acc L"
  by (simp_all add: hdr_at_def)













section \<open>Concrete runs that settle claims\<close>

text \<open>The tokenizer as a finished call leaves it, for the next call.\<close>

definition after_call :: "tok_result option \<Rightarrow> tokenizer_t option" where
  "after_call r = (case r of Some (Returned c s) \<Rightarrow> Some s | _ \<Rightarrow> None)"

text \<open>
  Claim C3, as stated, fails: \<^verbatim>\<open>tokenize\<close> reads on from \<^verbatim>\<open>source_pos\<close>, which the first call
  leaves behind the input, so that the second call in immediate succession finds nothing
  to read. On the input \<^verbatim>\<open>1\n\<close> the first call fills column 0 with \<^verbatim>\<open>1 00\<close> and the second
  leaves it empty.
\<close>

theorem second_call_same_counterexample:
  "observe (tokenize (- 1) False 1 (csv_tokenizer False True True (''1'' @ [LF])))
     = Some (NO_ERROR, 1, [[CHR ''1'', CHR 0x00]])
   \<and> observe (Option.bind
         (after_call (tokenize (- 1) False 1 (csv_tokenizer False True True (''1'' @ [LF]))))
         (tokenize (- 1) False 1))
     = Some (NO_ERROR, 0, [[]])"
  by code_simp


text \<open>
  Claim C5 against the code. With \<^verbatim>\<open>strip_whitespace_lines\<close> off and
  \<^verbatim>\<open>strip_whitespace_fields\<close> on, the input \<^verbatim>\<open>1,2\n3, \n\<close> gives two rows and \<^verbatim>\<open>NO_ERROR\<close>; the
  same input with every \<^verbatim>\<open>\n\<close> written \<^verbatim>\<open>\r\n\<close> stops at the second row with
  \<^verbatim>\<open>NOT_ENOUGH_COLS\<close>: the backward scan of the \<^verbatim>\<open>START_FIELD\<close> newline case starts on the
  \<^verbatim>\<open>\r\<close> and takes it for the end of the previous line.
\<close>

theorem crlf_input_differs:
  "observe (tokenize (- 1) False 2
      (csv_tokenizer False False True (''1,2'' @ [LF] @ ''3, '' @ [LF])))
     = Some (NO_ERROR, 2,
         [[CHR ''1'', CHR 0x00, CHR ''3'', CHR 0x00], [CHR ''2'', CHR 0x00, CHR 0x01, CHR 0x00]])
   \<and> observe (tokenize (- 1) False 2
      (csv_tokenizer False False True (''1,2'' @ [CR, LF] @ ''3, '' @ [CR, LF])))
     = Some (NOT_ENOUGH_COLS, 1,
         [[CHR ''1'', CHR 0x00, CHR ''3'', CHR 0x00], [CHR ''2'', CHR 0x00]])"
  by code_simp

text \<open>
  Claim C7 against the code. Only an unquoted, non-empty field is checked against
  \<^verbatim>\<open>num_cols\<close>. With two columns, the row \<^verbatim>\<open>1,2,\<close> (a third, empty field) and the row
  \<^verbatim>\<open>1,2,"x"\<close> (a third, quoted field) make \<^verbatim>\<open>END_FIELD\<close> and \<^verbatim>\<open>PUSH\<close> use
  \<^verbatim>\<open>col_ptrs[2]\<close>, outside the arrays: the call does not return \<^verbatim>\<open>TOO_MANY_COLS\<close>. The row
  \<^verbatim>\<open>1,2,3\<close> does.
\<close>

theorem excess_field_unchecked:
  "tokenize (- 1) False 2 (csv_tokenizer False True False (''1,2,'' @ [LF]))
     = Some Undefined_behaviour
   \<and> tokenize (- 1) False 2
       (csv_tokenizer False True False (''1,2,'' @ [CHR 0x22] @ ''x'' @ [CHR 0x22, LF]))
     = Some Undefined_behaviour
   \<and> observe (tokenize (- 1) False 2 (csv_tokenizer False True False (''1,2,3'' @ [LF])))
     = Some (TOO_MANY_COLS, 0, [[CHR ''1'', CHR 0x00], [CHR ''2'', CHR 0x00]])"
  by code_simp


section \<open>Changes of the tokenizer that the loop does not see\<close>

text \<open>
  A function \<open>g\<close> on tokenizers is invisible when it leaves alone every field the loop reads
  and commutes with every update the loop makes; switching \<^verbatim>\<open>fill_extra_cols\<close> on is allowed.
  Overwriting \<^verbatim>\<open>code\<close> and switching \<^verbatim>\<open>fill_extra_cols\<close> on are the two instances used below.
\<close>

definition invisible :: "(tokenizer_t \<Rightarrow> tokenizer_t) \<Rightarrow> bool" where
  "invisible g \<longleftrightarrow>
     (\<forall>s. source (g s) = source s \<and> source_pos (g s) = source_pos s
          \<and> delimiter (g s) = delimiter s \<and> comment (g s) = comment s
          \<and> quotechar (g s) = quotechar s \<and> output_cols (g s) = output_cols s
          \<and> col_ptrs (g s) = col_ptrs s \<and> output_len (g s) = output_len s
          \<and> num_cols (g s) = num_cols s \<and> num_rows (g s) = num_rows s
          \<and> state (g s) = state s
          \<and> strip_whitespace_lines (g s) = strip_whitespace_lines s
          \<and> strip_whitespace_fields (g s) = strip_whitespace_fields s
          \<and> (fill_extra_cols s \<longrightarrow> fill_extra_cols (g s)))
     \<and> (\<forall>s v. g (s\<lparr>output_cols := v\<rparr>) = (g s)\<lparr>output_cols := v\<rparr>)
     \<and> (\<forall>s v. g (s\<lparr>col_ptrs := v\<rparr>) = (g s)\<lparr>col_ptrs := v\<rparr>)
     \<and> (\<forall>s v. g (s\<lparr>output_len := v\<rparr>) = (g s)\<lparr>output_len := v\<rparr>)
     \<and> (\<forall>s v. g (s\<lparr>source_pos := v\<rparr>) = (g s)\<lparr>source_pos := v\<rparr>)
     \<and> (\<forall>s v. g (s\<lparr>state := v\<rparr>) = (g s)\<lparr>state := v\<rparr>)
     \<and> (\<forall>s v. g (s\<lparr>num_rows := v\<rparr>) = (g s)\<lparr>num_rows := v\<rparr>)
     \<and> (\<forall>s rc. (g (s\<lparr>code := rc\<rparr>))\<lparr>code := rc\<rparr> = (g s)\<lparr>code := rc\<rparr>)"

lemma invisible_sel:
  assumes "invisible g"
  shows "source (g s) = source s" "source_pos (g s) = source_pos s"
    "delimiter (g s) = delimiter s" "comment (g s) = comment s"
    "quotechar (g s) = quotechar s" "output_cols (g s) = output_cols s"
    "col_ptrs (g s) = col_ptrs s" "output_len (g s) = output_len s"
    "num_cols (g s) = num_cols s" "num_rows (g s) = num_rows s"
    "state (g s) = state s"
    "strip_whitespace_lines (g s) = strip_whitespace_lines s"
    "strip_whitespace_fields (g s) = strip_whitespace_fields s"
  using assms unfolding invisible_def by blast+

lemma invisible_upd:
  assumes "invisible g"
  shows "g (s\<lparr>output_cols := oc\<rparr>) = (g s)\<lparr>output_cols := oc\<rparr>"
    "g (s\<lparr>col_ptrs := cp\<rparr>) = (g s)\<lparr>col_ptrs := cp\<rparr>"
    "g (s\<lparr>output_len := ol\<rparr>) = (g s)\<lparr>output_len := ol\<rparr>"
    "g (s\<lparr>source_pos := p\<rparr>) = (g s)\<lparr>source_pos := p\<rparr>"
    "g (s\<lparr>state := st\<rparr>) = (g s)\<lparr>state := st\<rparr>"
    "g (s\<lparr>num_rows := n\<rparr>) = (g s)\<lparr>num_rows := n\<rparr>"
    "(g (s\<lparr>code := rc\<rparr>))\<lparr>code := rc\<rparr> = (g s)\<lparr>code := rc\<rparr>"
  using assms unfolding invisible_def by blast+

lemma invisible_code: "invisible (\<lambda>s. s\<lparr>code := x\<rparr>)"
  by (simp add: invisible_def)


lemmas invisible_simps = invisible_sel invisible_upd

lemma valid_col_g: "invisible g \<Longrightarrow> valid_col (g s) k = valid_col s k"
  by (simp add: valid_col_def invisible_sel)

lemma source_at_g: "invisible g \<Longrightarrow> source_at (g s) p = source_at s p"
  by (simp add: source_at_def source_len_def invisible_sel)

lemma resize_col_g:
  assumes g: "invisible g"
  shows "resize_col (g s) i = map_option g (resize_col s i)"
  by (simp add: resize_col_def Let_def invisible_simps [OF g] valid_col_g [OF g]
      split: option.splits)

lemma PUSH_g:
  assumes g: "invisible g"
  shows "PUSH k c (g s) = map_option g (PUSH k c s)"
proof (cases "valid_col s k")
  case False
  then show ?thesis by (simp add: PUSH_def valid_col_g [OF g])
next
  case True
  show ?thesis
  proof (cases "col_ptrs s ! nat k \<ge> output_len s ! nat k")
    case False
    then show ?thesis using True
      by (simp add: PUSH_def Let_def invisible_simps [OF g] valid_col_g [OF g])
  next
    case big: True
    show ?thesis
    proof (cases "resize_col s k")
      case None
      then show ?thesis using True big
        by (simp add: PUSH_def Let_def invisible_simps [OF g] valid_col_g [OF g]
            resize_col_g [OF g])
    next
      case (Some s1)
      then show ?thesis using True big
        by (simp add: PUSH_def Let_def invisible_simps [OF g] valid_col_g [OF g]
            resize_col_g [OF g])
    qed
  qed
qed

definition on_self :: "(tokenizer_t \<Rightarrow> tokenizer_t) \<Rightarrow> tok_locals \<Rightarrow> tok_locals" where
  "on_self g L = L\<lparr>self := g (self L)\<rparr>"

lemma on_self_simps [simp]:
  "self (on_self g L) = g (self L)" "col (on_self g L) = col L"
  "old_state (on_self g L) = old_state L" "parse_newline (on_self g L) = parse_newline L"
  "whitespace (on_self g L) = whitespace L"
  "on_self g (L\<lparr>col := k\<rparr>) = (on_self g L)\<lparr>col := k\<rparr>"
  "on_self g (L\<lparr>old_state := os\<rparr>) = (on_self g L)\<lparr>old_state := os\<rparr>"
  "on_self g (L\<lparr>parse_newline := pn\<rparr>) = (on_self g L)\<lparr>parse_newline := pn\<rparr>"
  "on_self g (L\<lparr>whitespace := w\<rparr>) = (on_self g L)\<lparr>whitespace := w\<rparr>"
  "on_self g (L\<lparr>self := s\<rparr>) = L\<lparr>self := g s\<rparr>"
  "(on_self g L)\<lparr>self := s\<rparr> = L\<lparr>self := s\<rparr>"
  by (simp_all add: on_self_def)

lemma strip_trailing_g:
  assumes g: "invisible g"
  shows "strip_trailing k (g s) = map_option g (strip_trailing k s)"
  by (simp add: strip_trailing_def invisible_simps [OF g] valid_col_g [OF g]
      split: option.splits)

lemma field_is_empty_g:
  assumes g: "invisible g"
  shows "field_is_empty k (g s) = field_is_empty k s"
  by (simp add: field_is_empty_def invisible_simps [OF g] valid_col_g [OF g])

lemma END_FIELD_g:
  assumes g: "invisible g"
  shows "END_FIELD h (on_self g L) = map_option (on_self g) (END_FIELD h L)"
  by (auto simp: END_FIELD_def strip_trailing_g [OF g] field_is_empty_g [OF g] PUSH_g [OF g]
      split: option.splits)

lemma fill_cols_g:
  assumes g: "invisible g"
  shows "fill_cols (on_self g L) = map_option (on_self g) (fill_cols L)"
proof (induction L rule: fill_cols.induct)
  case (1 L)
  show ?case
  proof (cases "col L < num_cols (self L)")
    case False
    then show ?thesis
      by (simp add: fill_cols.simps [of L] fill_cols.simps [of "on_self g L"]
          invisible_simps [OF g])
  next
    case True
    show ?thesis
    proof (cases "PUSH (col L) (CHR 0x01) (self L)")
      case None
      then show ?thesis using True
        by (simp add: fill_cols.simps [of L] fill_cols.simps [of "on_self g L"]
            invisible_simps [OF g] PUSH_g [OF g])
    next
      case s1: (Some s1)
      have ef: "END_FIELD False (L\<lparr>self := g s1\<rparr>) = map_option (on_self g) (END_FIELD False (L\<lparr>self := s1\<rparr>))"
        using END_FIELD_g [OF g, of False "L\<lparr>self := s1\<rparr>"] by simp
      show ?thesis
      proof (cases "END_FIELD False (L\<lparr>self := s1\<rparr>)")
        case None
        then show ?thesis using True s1 ef
          by (simp add: fill_cols.simps [of L] fill_cols.simps [of "on_self g L"]
              invisible_simps [OF g] PUSH_g [OF g])
      next
        case (Some L1)
        from "1.IH" [OF True s1 Some] show ?thesis using True s1 ef Some
          by (simp add: fill_cols.simps [of L] fill_cols.simps [of "on_self g L"]
              invisible_simps [OF g] PUSH_g [OF g])
      qed
    qed
  qed
qed


lemma back_scan_g:
  assumes g: "invisible g"
  shows "back_scan (g s) = map_option g (back_scan s)"
proof (induction s rule: back_scan.induct)
  case (1 s)
  show ?case
  proof (cases "source_pos s \<ge> 0")
    case False
    then show ?thesis
      by (simp add: back_scan.simps [of s] back_scan.simps [of "g s"] invisible_simps [OF g])
  next
    case True
    show ?thesis
    proof (cases "source_at s (source_pos s)")
      case None
      then show ?thesis using True
        by (simp add: back_scan.simps [of s] back_scan.simps [of "g s"] invisible_simps [OF g]
            source_at_g [OF g])
    next
      case (Some ch)
      show ?thesis
      proof (cases "ch \<noteq> delimiter s \<and> ch \<noteq> LF \<and> ch \<noteq> CR")
        case False
        then show ?thesis using True Some
          by (auto simp: back_scan.simps [of s] back_scan.simps [of "g s"]
              invisible_simps [OF g] source_at_g [OF g])
      next
        case go: True
        from "1.IH" [OF True Some go] show ?thesis using True Some go
          by (simp add: back_scan.simps [of s] back_scan.simps [of "g s"]
              invisible_simps [OF g] source_at_g [OF g])
      qed
    qed
  qed
qed

lemma push_upto_g:
  assumes g: "invisible g"
  shows "push_upto tmp k (g s) = map_option g (push_upto tmp k s)"
proof (induction tmp k s rule: push_upto.induct)
  case (1 tmp k s)
  show ?case
  proof (cases "source_pos s < tmp")
    case False
    then show ?thesis
      by (simp add: push_upto.simps [of tmp k s] push_upto.simps [of tmp k "g s"]
          invisible_simps [OF g])
  next
    case True
    show ?thesis
    proof (cases "source_at s (source_pos s)")
      case None
      then show ?thesis using True
        by (simp add: push_upto.simps [of tmp k s] push_upto.simps [of tmp k "g s"]
            invisible_simps [OF g] source_at_g [OF g])
    next
      case (Some ch)
      show ?thesis
      proof (cases "PUSH k ch s")
        case None
        then show ?thesis using True Some
          by (simp add: push_upto.simps [of tmp k s] push_upto.simps [of tmp k "g s"]
              invisible_simps [OF g] source_at_g [OF g] PUSH_g [OF g])
      next
        case s1: (Some s1)
        from "1.IH" [OF True Some s1] show ?thesis using True Some s1
          by (simp add: push_upto.simps [of tmp k s] push_upto.simps [of tmp k "g s"]
              invisible_simps [OF g] source_at_g [OF g] PUSH_g [OF g])
      qed
    qed
  qed
qed

lemma backtrack_g:
  assumes g: "invisible g"
  shows "backtrack h (on_self g L) = map_option (on_self g) (backtrack h L)"
proof (cases "back_scan ((self L)\<lparr>source_pos := source_pos (self L) - 1\<rparr>)")
  case None
  then have "back_scan ((g (self L))\<lparr>source_pos := source_pos (self L) - 1\<rparr>) = None"
    using back_scan_g [OF g, of "(self L)\<lparr>source_pos := source_pos (self L) - 1\<rparr>"]
    by (simp add: invisible_simps [OF g])
  then show ?thesis using None
    by (simp add: backtrack_def Let_def invisible_simps [OF g])
next
  case s1: (Some s1)
  then have s1g: "back_scan ((g (self L))\<lparr>source_pos := source_pos (self L) - 1\<rparr>) = Some (g s1)"
    using back_scan_g [OF g, of "(self L)\<lparr>source_pos := source_pos (self L) - 1\<rparr>"]
    by (simp add: invisible_simps [OF g])
  show ?thesis
  proof (cases "source_pos s1 = - 1")
    case True
    then show ?thesis using s1 s1g
      by (simp add: backtrack_def Let_def invisible_simps [OF g])
  next
    case False
    show ?thesis
    proof (cases "source_at s1 (source_pos s1)")
      case None
      then show ?thesis using s1 s1g False
        by (simp add: backtrack_def Let_def invisible_simps [OF g] source_at_g [OF g])
    next
      case (Some ch)
      show ?thesis
      proof (cases "ch = LF \<or> ch = CR")
        case True
        then show ?thesis using s1 s1g False Some
          by (auto simp: backtrack_def Let_def invisible_simps [OF g] source_at_g [OF g])
      next
        case nl: False
        let ?s2 = "s1\<lparr>source_pos := source_pos s1 + 1\<rparr>"
        have ef: "END_FIELD h (L\<lparr>self := g s3\<rparr>) = map_option (on_self g) (END_FIELD h (L\<lparr>self := s3\<rparr>))"
          for s3 using END_FIELD_g [OF g, of h "L\<lparr>self := s3\<rparr>"] by simp
        show ?thesis
        proof (cases "source_pos s1 + 1 = source_pos (self L)")
          case True
          then show ?thesis using s1 s1g False Some nl ef [of ?s2]
            by (simp add: backtrack_def Let_def invisible_simps [OF g] source_at_g [OF g])
        next
          case far: False
          have pu: "push_upto (source_pos (self L)) (col L) ((g s1)\<lparr>source_pos := source_pos s1 + 1\<rparr>)
              = map_option g (push_upto (source_pos (self L)) (col L) ?s2)"
            using push_upto_g [OF g, of "source_pos (self L)" "col L" ?s2]
            by (simp add: invisible_simps [OF g])
          show ?thesis
          proof (cases "push_upto (source_pos (self L)) (col L) ?s2")
            case None
            then show ?thesis using s1 s1g False Some nl far pu
              by (simp add: backtrack_def Let_def invisible_simps [OF g] source_at_g [OF g])
          next
            case s3: (Some s3)
            then show ?thesis using s1 s1g False Some nl far pu ef [of s3]
              by (simp add: backtrack_def Let_def invisible_simps [OF g] source_at_g [OF g])
          qed
        qed
      qed
    qed
  qed
qed

fun on_outcome :: "(tokenizer_t \<Rightarrow> tokenizer_t) \<Rightarrow> outcome \<Rightarrow> outcome" where
  "on_outcome g (Continue L) = Continue (on_self g L)"
| "on_outcome g (Return rc s) = Return rc ((g s)\<lparr>code := rc\<rparr>)"


definition gains_fill :: "(tokenizer_t \<Rightarrow> tokenizer_t) \<Rightarrow> bool" where
  "gains_fill g \<longleftrightarrow> (\<exists>s. \<not> fill_extra_cols s \<and> fill_extra_cols (g s))"

text \<open>The same column arrays.\<close>

definition same_cols :: "tokenizer_t \<Rightarrow> tokenizer_t \<Rightarrow> bool" where
  "same_cols s s' \<longleftrightarrow>
     output_cols s' = output_cols s \<and> col_ptrs s' = col_ptrs s \<and> output_len s' = output_len s"

text \<open>An outcome that has the columns as the padding loop left them in \<open>Lf\<close>, and one row
  more.\<close>

fun refilled :: "tok_locals \<Rightarrow> outcome \<Rightarrow> bool" where
  "refilled Lf (Continue L2) \<longleftrightarrow>
     same_cols (self Lf) (self L2) \<and> num_rows (self L2) = num_rows (self Lf) + 1"
| "refilled Lf (Return rc s2) \<longleftrightarrow>
     rc = NO_ERROR \<and> same_cols (self Lf) s2 \<and> num_rows s2 = num_rows (self Lf) + 1"

text \<open>What the run with \<^verbatim>\<open>fill_extra_cols\<close> does at a short row that ends with the locals
  \<open>L1\<close>: the padding loop runs, and the row is counted.\<close>

definition pads :: "tok_locals \<Rightarrow> outcome option \<Rightarrow> bool" where
  "pads L1 y \<longleftrightarrow>
     (case fill_cols L1 of None \<Rightarrow> y = None
      | Some Lf \<Rightarrow> (\<exists>out. y = Some out \<and> refilled Lf out))"

text \<open>The run on \<open>g s\<close> does what the run on \<open>s\<close> does, except where the run on \<open>s\<close> stops
  at a short row and \<open>g\<close> has switched \<^verbatim>\<open>fill_extra_cols\<close> on: there the run on \<open>g s\<close> pads
  the row.\<close>

definition lockstep ::
  "(tokenizer_t \<Rightarrow> tokenizer_t) \<Rightarrow> outcome option \<Rightarrow> outcome option \<Rightarrow> bool" where
  "lockstep g x y \<longleftrightarrow>
     y = map_option (on_outcome g) x
     \<or> (gains_fill g
        \<and> (\<exists>L1. x = Some (Return NOT_ENOUGH_COLS ((self L1)\<lparr>code := NOT_ENOUGH_COLS\<rparr>))
               \<and> col L1 < num_cols (self L1) \<and> pads L1 y))"

lemma lockstepI: "y = map_option (on_outcome g) x \<Longrightarrow> lockstep g x y"
  by (simp add: lockstep_def)

lemma RETURN_g:
  assumes g: "invisible g"
  shows "RETURN rc (g s) = on_outcome g (RETURN rc s)"
  by (simp add: RETURN_def invisible_simps [OF g])

lemma RETURN_g2:
  assumes g: "invisible g"
  shows "RETURN rc ((g s)\<lparr>num_rows := n, source_pos := p\<rparr>)
     = on_outcome g (RETURN rc (s\<lparr>num_rows := n, source_pos := p\<rparr>))"
    "RETURN rc ((g s)\<lparr>source_pos := p\<rparr>) = on_outcome g (RETURN rc (s\<lparr>source_pos := p\<rparr>))"
  using RETURN_g [OF g, of rc "s\<lparr>num_rows := n, source_pos := p\<rparr>"]
    RETURN_g [OF g, of rc "s\<lparr>source_pos := p\<rparr>"]
  by (simp_all add: invisible_simps [OF g])

lemma ops_g:
  assumes g: "invisible g"
  shows "set_state st (on_self g L) = on_self g (set_state st L)"
    "BEGIN_FIELD (on_self g L) = on_self g (BEGIN_FIELD L)"
    "HANDLE_CR (on_self g L) = on_self g (HANDLE_CR L)"
  by (simp_all add: set_state_def BEGIN_FIELD_def HANDLE_CR_def on_self_def
      invisible_simps [OF g])

lemma fill_cols_done: "\<not> col L < num_cols (self L) \<Longrightarrow> fill_cols L = Some L"
  by (simp add: fill_cols.simps)

lemma END_LINE_g:
  assumes g: "invisible g"
  shows "lockstep g (END_LINE e h L) (END_LINE e h (on_self g L))"
proof (cases h)
  case True
  then show ?thesis
    by (simp add: END_LINE_def invisible_simps [OF g] lockstep_def RETURN_g2 [OF g])
next
  case False
  have tail: "(let L2 = (on_self g L1)\<lparr>self := (self (on_self g L1))\<lparr>num_rows := num_rows (self (on_self g L1)) + 1\<rparr>,
                         old_state := START_LINE\<rparr>
              in if e \<noteq> - 1 \<and> num_rows (self L2) = e
                 then Some (RETURN NO_ERROR ((self L2)\<lparr>source_pos := source_pos (self L2) + 1\<rparr>))
                 else Some (Continue L2))
            = map_option (on_outcome g)
             (let L2 = L1\<lparr>self := (self L1)\<lparr>num_rows := num_rows (self L1) + 1\<rparr>,
                         old_state := START_LINE\<rparr>
              in if e \<noteq> - 1 \<and> num_rows (self L2) = e
                 then Some (RETURN NO_ERROR ((self L2)\<lparr>source_pos := source_pos (self L2) + 1\<rparr>))
                 else Some (Continue L2))" for L1
    by (simp add: Let_def invisible_simps [OF g] on_self_def RETURN_g2 [OF g])
  show ?thesis
  proof (cases "fill_extra_cols (self L)")
    case True
    then have fg: "fill_extra_cols (g (self L))" using g by (simp add: invisible_def)
    show ?thesis
    proof (cases "fill_cols L")
      case None
      then show ?thesis using False True fg
        by (simp add: END_LINE_def fill_cols_g [OF g] lockstep_def)
    next
      case (Some L1)
      then show ?thesis using False True fg tail [of L1]
        by (simp add: END_LINE_def fill_cols_g [OF g] lockstep_def)
    qed
  next
    case nofill: False
    show ?thesis
    proof (cases "col L < num_cols (self L)")
      case True
      show ?thesis
      proof (cases "fill_extra_cols (g (self L))")
        case True
        then have gf: "gains_fill g" using nofill by (auto simp: gains_fill_def)
        have x: "END_LINE e h L
            = Some (Return NOT_ENOUGH_COLS ((self L)\<lparr>code := NOT_ENOUGH_COLS\<rparr>))"
          using False nofill \<open>col L < num_cols (self L)\<close> by (simp add: END_LINE_def RETURN_def)
        have "pads L (END_LINE e h (on_self g L))"
        proof (cases "fill_cols L")
          case None
          then show ?thesis using \<open>\<not> h\<close> True
            by (simp add: pads_def END_LINE_def fill_cols_g [OF g])
        next
          case (Some Lf)
          then have "fill_cols (on_self g L) = Some (on_self g Lf)"
            by (simp add: fill_cols_g [OF g])
          then show ?thesis using Some \<open>\<not> h\<close> True
            by (simp add: pads_def END_LINE_def Let_def RETURN_def same_cols_def
                invisible_sel [OF g])
        qed
        then show ?thesis using gf x \<open>col L < num_cols (self L)\<close>
          unfolding lockstep_def by blast
      next
        case False
        then show ?thesis using \<open>\<not> h\<close> nofill True
          by (simp add: END_LINE_def lockstep_def invisible_simps [OF g] RETURN_def)
      qed
    next
      case full: False
      then have "fill_cols (on_self g L) = Some (on_self g L)"
        by (simp add: fill_cols_done invisible_simps [OF g])
      then show ?thesis using False nofill full tail [of L]
        by (simp add: END_LINE_def lockstep_def invisible_simps [OF g])
    qed
  qed
qed

lemma lockstep_and_then:
  assumes ls: "lockstep g x y"
    and k: "\<And>L. k (on_self g L) = on_self g (k L)"
    and kc: "\<And>L. same_cols (self L) (self (k L)) \<and> num_rows (self (k L)) = num_rows (self L)"
  shows "lockstep g (and_then x (\<lambda>L. Some (Continue (k L))))
           (and_then y (\<lambda>L. Some (Continue (k L))))"
proof (cases "y = map_option (on_outcome g) x")
  case True
  show ?thesis
  proof (cases x)
    case None
    then show ?thesis using True by (simp add: and_then_def lockstep_def)
  next
    case (Some out)
    then show ?thesis using True k by (cases out) (simp_all add: and_then_def lockstep_def)
  qed
next
  case False
  then obtain L1 where gf: "gains_fill g"
    and x: "x = Some (Return NOT_ENOUGH_COLS ((self L1)\<lparr>code := NOT_ENOUGH_COLS\<rparr>))"
    and c: "col L1 < num_cols (self L1)" and p: "pads L1 y"
    using ls unfolding lockstep_def by blast
  have "pads L1 (and_then y (\<lambda>L. Some (Continue (k L))))"
  proof (cases "fill_cols L1")
    case None
    then show ?thesis using p by (simp add: pads_def and_then_def)
  next
    case (Some Lf)
    then obtain out where y: "y = Some out" and r: "refilled Lf out"
      using p by (auto simp: pads_def)
    show ?thesis
    proof (cases out)
      case (Continue L2)
      then show ?thesis using Some y r kc [of L2]
        by (simp add: pads_def and_then_def same_cols_def)
    next
      case (Return rc s2)
      then show ?thesis using Some y r by (simp add: pads_def and_then_def)
    qed
  qed
  moreover have "and_then x (\<lambda>L. Some (Continue (k L))) = x" by (simp add: x and_then_def)
  ultimately show ?thesis using gf x c unfolding lockstep_def by auto
qed

lemma finish_line_g:
  assumes g: "invisible g"
  shows "lockstep g (finish_line e h L) (finish_line e h (on_self g L))"
  unfolding finish_line_def
proof (rule lockstep_and_then [OF END_LINE_g [OF g]])
  show "set_state START_LINE (on_self g L) = on_self g (set_state START_LINE L)" for L
    by (rule ops_g [OF g])
  show "same_cols (self L) (self (set_state START_LINE L))
      \<and> num_rows (self (set_state START_LINE L)) = num_rows (self L)" for L
    by (simp add: set_state_def same_cols_def)
qed


lemma lockstep_if:
  "(b \<Longrightarrow> lockstep g x1 y1) \<Longrightarrow> (\<not> b \<Longrightarrow> lockstep g x2 y2) \<Longrightarrow>
     lockstep g (if b then x1 else x2) (if b then y1 else y2)"
  by simp

lemma lockstep_after_END_FIELD:
  assumes g: "invisible g"
    and k: "\<And>L1. lockstep g (k L1) (k (on_self g L1))"
  shows "lockstep g (case END_FIELD h L of None \<Rightarrow> None | Some L1 \<Rightarrow> k L1)
           (case END_FIELD h (on_self g L) of None \<Rightarrow> None | Some L1 \<Rightarrow> k L1)"
proof (cases "END_FIELD h L")
  case None
  then show ?thesis by (simp add: END_FIELD_g [OF g] lockstep_def)
next
  case (Some L1)
  then show ?thesis using k [of L1] by (simp add: END_FIELD_g [OF g])
qed

lemmas on_self_sel = on_self_simps(1-5)

lemma case_FIELD_g:
  assumes g: "invisible g"
  shows "lockstep g (case_FIELD e h c L) (case_FIELD e h c (on_self g L))"
proof -
  have bf: "lockstep g (Some (Continue (BEGIN_FIELD L1))) (Some (Continue (BEGIN_FIELD (on_self g L1))))"
    for L1 by (simp add: lockstep_def ops_g [OF g])
  note a = lockstep_after_END_FIELD [OF g, of "\<lambda>L1. Some (Continue (BEGIN_FIELD L1))", OF bf]
  note b = lockstep_after_END_FIELD [OF g, of "finish_line e h", OF finish_line_g [OF g]]
  have p: "lockstep g
     (case PUSH (col L) c (self L) of None \<Rightarrow> None
      | Some s1 \<Rightarrow> Some (Continue (L\<lparr>self := s1, whitespace := w\<rparr>)))
     (case PUSH (col L) c (g (self L)) of None \<Rightarrow> None
      | Some s1 \<Rightarrow> Some (Continue (on_self g L\<lparr>self := s1, whitespace := w\<rparr>)))" for w
    by (cases "PUSH (col L) c (self L)") (simp_all add: PUSH_g [OF g] lockstep_def)
  show ?thesis
    unfolding case_FIELD_def
    apply (simp only: on_self_sel invisible_sel [OF g])
    apply (intro lockstep_if)
    apply (rule a b p | simp add: lockstep_def ops_g [OF g])+
    done
qed

lemma case_START_FIELD_g:
  assumes g: "invisible g"
  shows "lockstep g (case_START_FIELD e h c L) (case_START_FIELD e h c (on_self g L))"
proof -
  have bf: "lockstep g (Some (Continue (BEGIN_FIELD L1))) (Some (Continue (BEGIN_FIELD (on_self g L1))))"
    for L1 by (simp add: lockstep_def ops_g [OF g])
  note a = lockstep_after_END_FIELD [OF g, of "\<lambda>L1. Some (Continue (BEGIN_FIELD L1))", OF bf]
  have b: "lockstep g
      (case (if strip_whitespace_lines (self L) then
               (if is_blank (delimiter (self L)) then Some L else END_FIELD h L)
             else backtrack h L) of None \<Rightarrow> None | Some L1 \<Rightarrow> finish_line e h L1)
      (case (if strip_whitespace_lines (self L) then
               (if is_blank (delimiter (self L)) then Some (on_self g L)
                else END_FIELD h (on_self g L))
             else backtrack h (on_self g L)) of None \<Rightarrow> None | Some L1 \<Rightarrow> finish_line e h L1)"
  proof (cases "if strip_whitespace_lines (self L) then
               (if is_blank (delimiter (self L)) then Some L else END_FIELD h L)
             else backtrack h L")
    case None
    then show ?thesis
      by (auto simp: lockstep_def END_FIELD_g [OF g] backtrack_g [OF g] split: if_splits)
  next
    case (Some L1)
    then show ?thesis using finish_line_g [OF g, of e h L1]
      by (auto simp: END_FIELD_g [OF g] backtrack_g [OF g] split: if_splits)
  qed
  have f: "lockstep g (case_FIELD e h c (set_state FIELD L))
      (case_FIELD e h c (set_state FIELD (on_self g L)))"
    using case_FIELD_g [OF g, of e h c "set_state FIELD L"] by (simp add: ops_g [OF g])
  show ?thesis
    unfolding case_START_FIELD_def
    apply (simp only: on_self_sel invisible_sel [OF g])
    apply (intro lockstep_if)
    apply (rule a b f | simp add: lockstep_def ops_g [OF g] RETURN_g [OF g])+
    done
qed

lemma case_START_LINE_g:
  assumes g: "invisible g"
  shows "lockstep g (case_START_LINE e h c L) (case_START_LINE e h c (on_self g L))"
proof -
  have "BEGIN_FIELD ((on_self g L)\<lparr>col := 0\<rparr>) = on_self g (BEGIN_FIELD (L\<lparr>col := 0\<rparr>))"
    using ops_g(2) [OF g, of "L\<lparr>col := 0\<rparr>"] by simp
  then have f: "lockstep g (case_START_FIELD e h c (BEGIN_FIELD (L\<lparr>col := 0\<rparr>)))
      (case_START_FIELD e h c (BEGIN_FIELD ((on_self g L)\<lparr>col := 0\<rparr>)))"
    using case_START_FIELD_g [OF g, of e h c "BEGIN_FIELD (L\<lparr>col := 0\<rparr>)"] by simp
  show ?thesis
    unfolding case_START_LINE_def
    apply (simp only: on_self_sel invisible_sel [OF g])
    apply (intro lockstep_if)
    apply (rule f | simp add: lockstep_def ops_g [OF g])+
    done
qed


lemma lockstep_PUSH:
  assumes g: "invisible g"
  shows "lockstep g
     (case PUSH (col L) c (self L) of None \<Rightarrow> None | Some s1 \<Rightarrow> Some (Continue (L\<lparr>self := s1\<rparr>)))
     (case PUSH (col L) c (g (self L)) of None \<Rightarrow> None
      | Some s1 \<Rightarrow> Some (Continue (on_self g L\<lparr>self := s1\<rparr>)))"
  by (cases "PUSH (col L) c (self L)") (simp_all add: PUSH_g [OF g] lockstep_def)

lemma case_QUOTED_FIELD_g:
  assumes g: "invisible g"
  shows "lockstep g (case_QUOTED_FIELD c L) (case_QUOTED_FIELD c (on_self g L))"
  unfolding case_QUOTED_FIELD_def
  apply (simp only: on_self_sel invisible_sel [OF g])
  apply (intro lockstep_if)
  apply (rule lockstep_PUSH [OF g] | simp add: lockstep_def ops_g [OF g])+
  done

lemma case_QUOTED_FIELD_NEWLINE_g:
  assumes g: "invisible g"
  shows "lockstep g (case_QUOTED_FIELD_NEWLINE c L) (case_QUOTED_FIELD_NEWLINE c (on_self g L))"
proof -
  have f: "lockstep g (case_QUOTED_FIELD c (set_state QUOTED_FIELD L))
      (case_QUOTED_FIELD c (set_state QUOTED_FIELD (on_self g L)))"
    using case_QUOTED_FIELD_g [OF g, of c "set_state QUOTED_FIELD L"] by (simp add: ops_g [OF g])
  show ?thesis
    unfolding case_QUOTED_FIELD_NEWLINE_def
    apply (simp only: on_self_sel invisible_sel [OF g])
    apply (intro lockstep_if)
    apply (rule f case_QUOTED_FIELD_g [OF g] | simp add: lockstep_def ops_g [OF g])+
    done
qed

lemma case_START_QUOTED_FIELD_g:
  assumes g: "invisible g"
  shows "lockstep g (case_START_QUOTED_FIELD h c L) (case_START_QUOTED_FIELD h c (on_self g L))"
proof -
  have f: "lockstep g (case_QUOTED_FIELD_NEWLINE c (set_state QUOTED_FIELD L))
      (case_QUOTED_FIELD_NEWLINE c (set_state QUOTED_FIELD (on_self g L)))"
    using case_QUOTED_FIELD_NEWLINE_g [OF g, of c "set_state QUOTED_FIELD L"]
    by (simp add: ops_g [OF g])
  have a: "lockstep g (map_option Continue (END_FIELD h L))
      (map_option Continue (END_FIELD h (on_self g L)))"
    by (cases "END_FIELD h L") (simp_all add: END_FIELD_g [OF g] lockstep_def)
  show ?thesis
    unfolding case_START_QUOTED_FIELD_def
    apply (simp only: on_self_sel invisible_sel [OF g])
    apply (intro lockstep_if)
    apply (rule f a | simp add: lockstep_def ops_g [OF g])+
    done
qed

lemma case_COMMENT_g:
  assumes g: "invisible g"
  shows "lockstep g (case_COMMENT c L) (case_COMMENT c (on_self g L))"
  unfolding case_COMMENT_def
  apply (intro lockstep_if)
  apply (simp add: lockstep_def ops_g [OF g])+
  done

lemma case_CARRIAGE_RETURN_g:
  assumes g: "invisible g"
  shows "lockstep g (case_CARRIAGE_RETURN c L) (case_CARRIAGE_RETURN c (on_self g L))"
  by (simp add: case_CARRIAGE_RETURN_def Let_def lockstep_def set_state_def on_self_def
      invisible_simps [OF g])

lemma tok_switch_g:
  assumes g: "invisible g"
  shows "lockstep g (tok_switch e h c L) (tok_switch e h c (on_self g L))"
  using case_START_LINE_g [OF g] case_START_FIELD_g [OF g] case_FIELD_g [OF g]
    case_START_QUOTED_FIELD_g [OF g] case_QUOTED_FIELD_NEWLINE_g [OF g]
    case_QUOTED_FIELD_g [OF g] case_COMMENT_g [OF g] case_CARRIAGE_RETURN_g [OF g]
  by (cases "state (self L)") (simp_all add: tok_switch_def invisible_sel [OF g])

lemma tok_char_g: "invisible g \<Longrightarrow> tok_char (on_self g L) = tok_char L"
  by (simp add: tok_char_def source_len_def invisible_sel source_at_g)

lemma tok_body_g:
  assumes g: "invisible g"
  shows "lockstep g (tok_body e h L) (tok_body e h (on_self g L))"
proof (cases "tok_char L")
  case None
  then show ?thesis by (simp add: tok_body_def tok_char_g [OF g] lockstep_def)
next
  case (Some c)
  have sw: "lockstep g (tok_switch e h c (L\<lparr>parse_newline := False\<rparr>))
      (tok_switch e h c ((on_self g L)\<lparr>parse_newline := False\<rparr>))"
    using tok_switch_g [OF g, of e h c "L\<lparr>parse_newline := False\<rparr>"] by simp
  have "lockstep g
      (and_then (tok_switch e h c (L\<lparr>parse_newline := False\<rparr>))
         (\<lambda>L1. Some (Continue (L1\<lparr>self := (self L1)\<lparr>source_pos := source_pos (self L1) + 1\<rparr>\<rparr>))))
      (and_then (tok_switch e h c ((on_self g L)\<lparr>parse_newline := False\<rparr>))
         (\<lambda>L1. Some (Continue (L1\<lparr>self := (self L1)\<lparr>source_pos := source_pos (self L1) + 1\<rparr>\<rparr>))))"
    by (rule lockstep_and_then [OF sw]) (simp_all add: invisible_simps [OF g] same_cols_def)
  then show ?thesis using Some by (simp add: tok_body_def tok_char_g [OF g])
qed

fun on_result :: "(tokenizer_t \<Rightarrow> tokenizer_t) \<Rightarrow> tok_result \<Rightarrow> tok_result" where
  "on_result g Undefined_behaviour = Undefined_behaviour"
| "on_result g (Returned rc s) = Returned rc ((g s)\<lparr>code := rc\<rparr>)"

lemma tok_loop_g:
  assumes g: "invisible g" and run: "tok_loop e h L = Some r"
    and ok: "\<not> (gains_fill g \<and> (\<exists>s. r = Returned NOT_ENOUGH_COLS s))"
  shows "tok_loop e h (on_self g L) = Some (on_result g r)"
proof -
  have "e' = e \<longrightarrow> h' = h \<longrightarrow> \<not> (gains_fill g \<and> (\<exists>s. r = Returned NOT_ENOUGH_COLS s)) \<longrightarrow>
          tok_loop e h (on_self g L) = Some (on_result g r)"
    if "tok_loop e' h' L = Some r" for e' h' L r
    using that
  proof (induction e' h' L r rule: tok_loop.raw_induct [rotated 1, consumes 1, case_names body])
    case (body loop e' h' L r)
    show ?case
    proof (intro impI)
      assume eq: "e' = e" "h' = h"
        and ok: "\<not> (gains_fill g \<and> (\<exists>s. r = Returned NOT_ENOUGH_COLS s))"
      show "tok_loop e h (on_self g L) = Some (on_result g r)"
      proof (cases "source_pos (self L) < source_len (self L) + 1")
        case False
        then have "r = Returned NO_ERROR ((self L)\<lparr>code := NO_ERROR\<rparr>)"
          using body.hyps by simp
        then show ?thesis using False
          by (subst tok_loop.simps) (simp add: invisible_simps [OF g] source_len_def)
      next
        case True
        then have c: "source_pos (self (on_self g L)) < source_len (self (on_self g L)) + 1"
          by (simp add: invisible_sel [OF g] source_len_def)
        note ls = tok_body_g [OF g, of e h L]
        show ?thesis
        proof (cases "tok_body e h L")
          case None
          then have "r = Undefined_behaviour" using body.hyps True eq by simp
          moreover have "tok_body e h (on_self g L) = None"
            using ls None by (simp add: lockstep_def)
          ultimately show ?thesis using c by (subst tok_loop.simps) simp
        next
          case (Some out)
          show ?thesis
          proof (cases out)
            case (Continue L1)
            then have "loop e h L1 = Some r" using body.hyps True eq Some by simp
            then have "tok_loop e h (on_self g L1) = Some (on_result g r)"
              using body.IH ok by blast
            moreover have "tok_body e h (on_self g L) = Some (Continue (on_self g L1))"
              using ls Some Continue by (simp add: lockstep_def)
            ultimately show ?thesis using c by (subst tok_loop.simps) simp
          next
            case (Return rc s)
            then have r: "r = Returned rc s" using body.hyps True eq Some by simp
            then have "tok_body e h (on_self g L) = Some (Return rc ((g s)\<lparr>code := rc\<rparr>))"
              using ls Some Return ok by (auto simp: lockstep_def)
            then show ?thesis using c r by (subst tok_loop.simps) simp
          qed
        qed
      qed
    qed
  qed
  then show ?thesis using run ok by blast
qed

lemma tokenize_result_frame:
  assumes "tokenize e h n t = Some (Returned rc s)"
  shows "return_frame s = return_frame (tok_alloc h n t) \<and> code s = rc"
proof (cases "e = 0")
  case True
  then show ?thesis using assms by (auto simp: tokenize_def Let_def)
next
  case False
  let ?L = "\<lparr>self = (tok_alloc h n t)\<lparr>state := START_LINE\<rparr>, col = 0, old_state = START_LINE,
              parse_newline = False, whitespace = True\<rparr>"
  let ?I = "\<lambda>L. cr_inv L \<and> return_frame (self L) = return_frame (tok_alloc h n t)"
  let ?Q = "\<lambda>r. \<forall>rc s. r = Returned rc s \<longrightarrow>
              return_frame s = return_frame (tok_alloc h n t) \<and> code s = rc"
  have run: "tok_loop e h ?L = Some (Returned rc s)"
    using assms False by (simp add: tokenize_def Let_def)
  have "?Q (Returned rc s)"
  proof (rule tok_loop_rule [OF run, where I = ?I and Q = ?Q])
    show "?I ?L" by (simp add: cr_inv_def)
  next
    fix L L' assume I: "?I L" and b: "tok_body e h L = Some (Continue L')"
    from tok_body_keeps [OF b] I tok_body_decreases [OF b]
    show "?I L'" by simp
  next
    fix L rc s assume I: "?I L" and b: "tok_body e h L = Some (Return rc s)"
    from tok_body_keeps [OF b] I show "?Q (Returned rc s)" by simp
  next
    fix L assume "?I L"
    then show "?Q (Returned NO_ERROR ((self L)\<lparr>code := NO_ERROR\<rparr>))" by simp
  next
    show "?Q Undefined_behaviour" by simp
  qed
  then show ?thesis by simp
qed

lemma tok_alloc_ignores:
  "tok_alloc h n u = tok_alloc h n ((return_frame u)\<lparr>source_pos := source_pos u, code := code u, state := state u\<rparr>)"
  by (simp add: tok_alloc_def Let_def return_frame_def kept_def delete_data_def)

lemma tok_alloc_num_cols [simp]: "tok_alloc h n (u\<lparr>num_cols := k\<rparr>) = tok_alloc h n u"
  by (simp add: tok_alloc_def Let_def delete_data_def)

lemma return_frame_tok_alloc:
  "return_frame (tok_alloc h n t) = (return_frame t)\<lparr>num_cols := (if h then 1 else n)\<rparr>"
  by (simp add: tok_alloc_def Let_def return_frame_def kept_def delete_data_def)


lemma tok_alloc_again:
  assumes "return_frame s = return_frame (tok_alloc h n t)"
  shows "tok_alloc h n (s\<lparr>source_pos := source_pos t\<rparr>)
           = (tok_alloc h n t)\<lparr>code := code s, state := state s\<rparr>"
proof -
  let ?s2 = "s\<lparr>source_pos := source_pos t\<rparr>"
  have "tok_alloc h n ?s2
      = tok_alloc h n ((return_frame ?s2)\<lparr>source_pos := source_pos ?s2, code := code ?s2, state := state ?s2\<rparr>)"
    by (rule tok_alloc_ignores)
  also have "\<dots> = tok_alloc h n ((return_frame t)\<lparr>num_cols := (if h then 1 else n),
       source_pos := source_pos t, code := code s, state := state s\<rparr>)"
    using assms by (simp add: return_frame_tok_alloc)
  also have "\<dots> = (tok_alloc h n ((return_frame t)\<lparr>source_pos := source_pos t, code := code t, state := state t\<rparr>))
       \<lparr>code := code s, state := state s\<rparr>"
    by (simp add: tok_alloc_def Let_def delete_data_def)
  also have "\<dots> = (tok_alloc h n t)\<lparr>code := code s, state := state s\<rparr>"
    using tok_alloc_ignores [of h n t] by simp
  finally show ?thesis .
qed

lemma upd_swap:
  "u\<lparr>state := a, code := b\<rparr> = u\<lparr>code := b, state := a\<rparr>"
  "u\<lparr>state := a, fill_extra_cols := f\<rparr> = u\<lparr>fill_extra_cols := f, state := a\<rparr>"
  by (cases u, simp)+


text \<open>
  Claim C3, amended. When a call of \<^verbatim>\<open>tokenize\<close> has returned and \<^verbatim>\<open>source_pos\<close> is put back to
  its value before that call (\<^verbatim>\<open>set_source\<close> with the same input does so for the cursor 0),
  a second call with the same arguments returns the same code and leaves the tokenizer as
  the first call left it: the same column buffers byte for byte, the same \<^verbatim>\<open>num_rows\<close>.
\<close>

theorem tokenize_again:
  assumes "tokenize e h n t = Some (Returned rc s)"
  shows "tokenize e h n (s\<lparr>source_pos := source_pos t\<rparr>) = Some (Returned rc s)"
proof -
  from tokenize_result_frame [OF assms]
  have rf: "return_frame s = return_frame (tok_alloc h n t)" and c: "code s = rc" by simp_all
  note again = tok_alloc_again [OF rf]
  show ?thesis
  proof (cases "e = 0")
    case True
    then have s: "s = (tok_alloc h n t)\<lparr>code := NO_ERROR\<rparr>" and "rc = NO_ERROR"
      using assms by (auto simp: tokenize_def Let_def)
    have "(tok_alloc h n t)\<lparr>code := code s, state := state s, code := NO_ERROR\<rparr> = s"
      by (subst (3) s) (simp add: s)
    then show ?thesis using True again \<open>rc = NO_ERROR\<close> by (simp add: tokenize_def Let_def)
  next
    case False
    let ?g = "\<lambda>u. u\<lparr>code := rc\<rparr>"
    let ?L = "\<lparr>self = (tok_alloc h n t)\<lparr>state := START_LINE\<rparr>, col = 0, old_state = START_LINE,
              parse_newline = False, whitespace = True\<rparr>"
    have run: "tok_loop e h ?L = Some (Returned rc s)"
      using assms False by (simp add: tokenize_def Let_def)
    have "\<not> gains_fill ?g" by (simp add: gains_fill_def)
    then have "tok_loop e h (on_self ?g ?L) = Some (on_result ?g (Returned rc s))"
      using tok_loop_g [OF invisible_code run] by simp
    moreover have "s\<lparr>code := rc\<rparr> = s" using c by auto
    ultimately show ?thesis using False again c upd_swap(1) [where u = "tok_alloc h n t" and a = START_LINE and b = rc]
      by (simp add: tokenize_def Let_def on_self_def)
  qed
qed


theorem tokenize_again_witness:
  "\<exists>rc s. tokenize (- 1) False 1 (csv_tokenizer False True True (''1'' @ [LF]))
            = Some (Returned rc s)
         \<and> tokenize (- 1) False 1 (s\<lparr>source_pos := 0\<rparr>) = Some (Returned rc s)"
proof -
  let ?t = "csv_tokenizer False True True (''1'' @ [LF])"
  have "observe (tokenize (- 1) False 1 ?t) = Some (NO_ERROR, 1, [[CHR ''1'', CHR 0x00]])"
    by code_simp
  then obtain s where s: "tokenize (- 1) False 1 ?t = Some (Returned NO_ERROR s)"
    by (auto simp: observe_def split: option.splits tok_result.splits)
  have "source_pos ?t = 0"
    by (simp add: csv_tokenizer_def set_source_def)
  then show ?thesis using s tokenize_again [OF s] by auto
qed

section \<open>Switching \<^verbatim>\<open>fill_extra_cols\<close> on\<close>












end
